theory Spec2Isabelle
  imports Main
begin

section \<open>The IR graph consumed by the dead-code pass\<close>

text \<open>
  \<^verbatim>\<open>DeadCode.cpp\<close> works on the IR classes of \<^verbatim>\<open>Instruction.hpp\<close> and
  \<^verbatim>\<open>Function.hpp\<close>, which it includes. Modelled from the spec: the records below keep
  of those classes what the data model of the spec lists and the pass reads: an instruction
  has a kind and an ordered sequence of operands; a basic block has an ordered sequence of
  instructions and its predecessors; a function has a name, the flag of an external
  declaration, one designated entry block and an ordered sequence of blocks; a module owns
  the functions and the global variables.

  Objects are referred to by address: an instruction by its \<open>iid\<close>, a basic block by
  its \<open>bid\<close>, a function or a global by its name. A \<open>val\<close> is what an operand
  slot can hold; \<^verbatim>\<open>dynamic_cast<Instruction *>\<close> succeeds exactly on \<open>VInstr\<close> and
  \<^verbatim>\<open>dynamic_cast<Function *>\<close> exactly on \<open>VFunction\<close>.
\<close>

type_synonym iid = nat

type_synonym bid = nat

datatype val =
    VInstr iid
  | VFunction string
  | VGlobal string
  | VBlock bid
  | VConst int
  | VArg nat

datatype opcode =
    Ret | Br | Add | Sub | Mul | SDiv | Alloca | Load | Store | ICmp | Phi | Call
  | GetElementPtr | ZExt

record instr =
  iid :: iid
  opc :: opcode
  operands :: "val list"

record basic_block =
  bid :: bid
  instr_list :: "instr list"
  pre_bbs :: "bid list"

record func =
  fname :: string
  is_declaration :: bool
  entry_block :: bid
  basic_blocks :: "basic_block list"

record global_var =
  gname :: string

record module =
  get_functions :: "func list"
  get_global_variable :: "global_var list"

text \<open>
  The members of the pass object: the module \<^verbatim>\<open>m_\<close> (the field \<open>m_mod\<close>), the counter
  \<^verbatim>\<open>ins_count\<close>, the map \<^verbatim>\<open>marked\<close> and the deque \<^verbatim>\<open>work_list\<close>.
  The only value ever stored in \<^verbatim>\<open>marked\<close> is \<^verbatim>\<open>true\<close>, and every read
  \<^verbatim>\<open>marked[x]\<close> is guarded by \<^verbatim>\<open>marked.count(x)\<close>, so the map is the set of
  its keys. The counter only ever grows by one per erased instruction; it is a natural
  number here.
\<close>

record dead_code =
  m_mod :: module
  ins_count :: nat
  marked :: "iid set"
  work_list :: "iid list"

subsection \<open>Queries of the IR\<close>

definition is_ret :: "instr \<Rightarrow> bool" where
  "is_ret ins = (opc ins = Ret)"

definition is_br :: "instr \<Rightarrow> bool" where
  "is_br ins = (opc ins = Br)"

definition is_store :: "instr \<Rightarrow> bool" where
  "is_store ins = (opc ins = Store)"

definition is_call :: "instr \<Rightarrow> bool" where
  "is_call ins = (opc ins = Call)"

text \<open>
  Modelled from the spec: \<^verbatim>\<open>Instruction::isTerminator\<close> is declared in
  \<^verbatim>\<open>Instruction.hpp\<close>. The spec: a terminator is the single instruction ending a
  basic block, a return or a branch.
\<close>

definition isTerminator :: "instr \<Rightarrow> bool" where
  "isTerminator ins = (is_ret ins \<or> is_br ins)"

text \<open>
  Modelled from the spec: \<^verbatim>\<open>BasicBlock::is_terminated\<close> is declared in
  \<^verbatim>\<open>BasicBlock.hpp\<close>. The spec: the block currently ends with a terminator.
\<close>

definition is_terminated :: "basic_block \<Rightarrow> bool" where
  "is_terminated bb = (instr_list bb \<noteq> [] \<and> isTerminator (last (instr_list bb)))"

definition func_instrs :: "func \<Rightarrow> instr list" where
  "func_instrs f = concat (map instr_list (basic_blocks f))"

definition module_instrs :: "module \<Rightarrow> instr list" where
  "module_instrs m = concat (map func_instrs (get_functions m))"

text \<open>
  Modelled from the spec: \<^verbatim>\<open>Value::get_use_list\<close> is declared in \<^verbatim>\<open>Value.hpp\<close>.
  The spec: a value's use-list is exactly the set of instructions currently referencing it
  as an operand, updated whenever an operand reference is added or removed. The model
  computes it from the operand lists of the instructions present in the module, as the
  list of the users; the pass only asks whether it is empty.
\<close>

definition get_use_list :: "module \<Rightarrow> val \<Rightarrow> instr list" where
  "get_use_list m v = filter (\<lambda>u. v \<in> set (operands u)) (module_instrs m)"

text \<open>
  Dereferencing an \<^verbatim>\<open>Instruction *\<close>: the instruction of the module with that address.
  An address of no instruction of the module has no operands to visit.
\<close>

definition find_instr :: "module \<Rightarrow> iid \<Rightarrow> instr option" where
  "find_instr m i = find (\<lambda>x. iid x = i) (module_instrs m)"

definition get_operands :: "module \<Rightarrow> iid \<Rightarrow> val list" where
  "get_operands m i = (case find_instr m i of None \<Rightarrow> [] | Some x \<Rightarrow> operands x)"

text \<open>
  \<^verbatim>\<open>dynamic_cast<Function *>(call_inst->get_operand(0))\<close>: the function object the
  first operand points to, or null (\<open>None\<close>) when the operand is no function. A call
  with no operand, or one that names no function of the module, has no callee object
  either.
\<close>

definition called_function :: "module \<Rightarrow> instr \<Rightarrow> func option" where
  "called_function m ins =
     (case operands ins of
        VFunction n # _ \<Rightarrow> find (\<lambda>f. fname f = n) (get_functions m)
      | _ \<Rightarrow> None)"

section \<open>The critical-instruction predicate\<close>

text \<open>
  \<^verbatim>\<open>DeadCode::is_critical\<close>. The answers of \<^verbatim>\<open>func_info->is_pure_function\<close>
  are the parameter \<open>pure\<close>. The rule for calls returns true only inside the guard
  \<^verbatim>\<open>if (func)\<close>: for a declaration, and for a function not reported pure. Every other
  call falls through to the last rule, the use-list of the instruction.
\<close>

definition is_critical :: "(string \<Rightarrow> bool) \<Rightarrow> module \<Rightarrow> instr \<Rightarrow> bool" where
  "is_critical pure m ins =
     (if is_ret ins then True
      else if is_br ins then True
      else if is_store ins then True
      else if is_call ins \<and>
              (case called_function m ins of
                 Some f \<Rightarrow> (if is_declaration f then True else \<not> pure (fname f))
               | None \<Rightarrow> False)
           then True
      else get_use_list m (VInstr (iid ins)) \<noteq> [])"

section \<open>Marking\<close>

text \<open>
  The operands of the instruction at an address that are instructions, in operand order
  (\<^verbatim>\<open>dynamic_cast<Instruction *>(ins->get_operand(i))\<close>), and the addresses of the
  instructions of the module.
\<close>

definition instr_operands :: "module \<Rightarrow> iid \<Rightarrow> iid list" where
  "instr_operands m i =
     concat (map (\<lambda>v. case v of VInstr j \<Rightarrow> [j] | _ \<Rightarrow> []) (get_operands m i))"

definition instr_ids :: "module \<Rightarrow> iid set" where
  "instr_ids m = set (map iid (module_instrs m))"

text \<open>
  The second step of \<^verbatim>\<open>DeadCode::mark(Function *)\<close>, the worklist loop: the front
  of the queue is popped; if it is marked already the loop goes on, otherwise it is marked
  and those of its instruction operands that are not marked are pushed at the back.
\<close>

function mark_loop :: "module \<Rightarrow> iid list \<Rightarrow> iid set \<Rightarrow> iid set" where
  "mark_loop m [] mk = mk"
| "mark_loop m (i # wl) mk =
     (if i \<in> mk then mark_loop m wl mk
      else mark_loop m (wl @ filter (\<lambda>j. j \<notin> insert i mk) (instr_operands m i))
             (insert i mk))"
  by pat_completeness auto

text \<open>
  \<^verbatim>\<open>DeadCode::mark(Instruction *)\<close>, the recursive variant: \<open>mark_ins\<close> is the
  function, \<open>mark_ops\<close> its loop over the operands of the instruction.
\<close>

function mark_ins :: "module \<Rightarrow> iid \<Rightarrow> iid set \<Rightarrow> iid set"
  and mark_ops :: "module \<Rightarrow> val list \<Rightarrow> iid set \<Rightarrow> iid set" where
  "mark_ins m i mk = (if i \<in> mk then mk else mark_ops m (get_operands m i) (insert i mk))"
| "mark_ops m [] mk = mk"
| "mark_ops m (v # vs) mk =
     (case v of
        VInstr j \<Rightarrow> mark_ops m vs (mark_ins m j mk)
      | _ \<Rightarrow> mark_ops m vs mk)"
  by pat_completeness auto

text \<open>
  The first step of \<^verbatim>\<open>DeadCode::mark(Function *)\<close>: the addresses of the critical
  instructions of the function, in block and instruction order.
\<close>

definition critical_seeds :: "(string \<Rightarrow> bool) \<Rightarrow> module \<Rightarrow> func \<Rightarrow> iid list" where
  "critical_seeds pure m func = map iid (filter (is_critical pure m) (func_instrs func))"

text \<open>
  \<^verbatim>\<open>DeadCode::mark(Function *)\<close> on the function at position \<open>k\<close> of the module:
  both containers are cleared, the critical instructions are queued, the loop runs the
  queue empty. What the function prints to \<^verbatim>\<open>std::cerr\<close> is left out.
\<close>

definition mark :: "(string \<Rightarrow> bool) \<Rightarrow> nat \<Rightarrow> dead_code \<Rightarrow> dead_code" where
  "mark pure k s =
     (let func = get_functions (m_mod s) ! k;
          wl = critical_seeds pure (m_mod s) func
      in s\<lparr>marked := mark_loop (m_mod s) wl {}, work_list := []\<rparr>)"

section \<open>Sweeping\<close>

text \<open>
  The first loop of \<^verbatim>\<open>DeadCode::sweep\<close> on one block: nothing is collected from an
  empty block or from a block without terminator; otherwise every instruction that is
  neither a terminator nor marked is collected.
\<close>

definition wait_del_of :: "iid set \<Rightarrow> basic_block \<Rightarrow> instr list" where
  "wait_del_of mk bb =
     (if instr_list bb = [] then []
      else if \<not> is_terminated bb then []
      else filter (\<lambda>ins. \<not> isTerminator ins \<and> iid ins \<notin> mk) (instr_list bb))"

text \<open>
  \<^verbatim>\<open>wait_del\<close>: the collected instructions over all blocks of the function. An entry
  is the instruction together with the position of its parent block
  (\<^verbatim>\<open>ins->get_parent()\<close>).
\<close>

definition collect_wait_del :: "iid set \<Rightarrow> basic_block list \<Rightarrow> (nat \<times> instr) list" where
  "collect_wait_del mk bbs =
     concat (map (\<lambda>j. map (Pair j) (wait_del_of mk (bbs ! j))) [0..<length bbs])"

text \<open>
  \<^verbatim>\<open>ins->remove_all_operands(); bb->erase_instr(ins)\<close>. Modelled from the spec:
  both are declared in the IR headers; the spec: the instruction is detached from the
  use-lists of its operands, then removed from its parent block, which destroys it. With
  use-lists computed from the instructions present, removing the instruction from its
  block does both. \<open>remove1\<close> takes out the first element equal to the instruction;
  an element equal to a collected instruction is collected too, so one node leaves the
  block for each pointer of \<^verbatim>\<open>wait_del\<close>.
\<close>

definition erase_instr :: "nat \<times> instr \<Rightarrow> basic_block list \<Rightarrow> basic_block list" where
  "erase_instr p bbs =
     (case p of (j, ins) \<Rightarrow>
        bbs[j := (bbs ! j)\<lparr>instr_list := remove1 ins (instr_list (bbs ! j))\<rparr>])"

text \<open>
  One round of the second loop of \<^verbatim>\<open>DeadCode::sweep\<close>, with the counter: a
  terminator is skipped, any other instruction is erased and counted. The parent pointer
  of an instruction that stands in a block is never null.
\<close>

definition sweep_step ::
  "nat \<times> instr \<Rightarrow> basic_block list \<times> nat \<Rightarrow> basic_block list \<times> nat" where
  "sweep_step p st =
     (case st of (bbs, cnt) \<Rightarrow>
        if isTerminator (snd p) then (bbs, cnt)
        else (erase_instr p bbs, cnt + 1))"

text \<open>Writing through the pointer \<^verbatim>\<open>func\<close>: the function at position \<open>k\<close> is replaced.\<close>

definition set_function :: "nat \<Rightarrow> func \<Rightarrow> module \<Rightarrow> module" where
  "set_function k func m = m\<lparr>get_functions := (get_functions m)[k := func]\<rparr>"

text \<open>
  \<^verbatim>\<open>DeadCode::sweep\<close> on the function at position \<open>k\<close>: everything is collected
  first, then erased; the result is \<^verbatim>\<open>!wait_del.empty()\<close>.
\<close>

definition sweep :: "nat \<Rightarrow> dead_code \<Rightarrow> dead_code \<times> bool" where
  "sweep k s =
     (let func = get_functions (m_mod s) ! k;
          wait_del = collect_wait_del (marked s) (basic_blocks func);
          (bbs, cnt) = fold sweep_step wait_del (basic_blocks func, ins_count s)
      in (s\<lparr>m_mod := set_function k (func\<lparr>basic_blocks := bbs\<rparr>) (m_mod s), ins_count := cnt\<rparr>,
          wait_del \<noteq> []))"

section \<open>Pruning blocks\<close>

text \<open>
  \<^verbatim>\<open>DeadCode::clear_basic_blocks\<close> on the function at position \<open>k\<close>: the blocks
  without predecessor that are not the entry block and are empty are collected, then
  erased. Modelled from the spec: \<^verbatim>\<open>BasicBlock::erase_from_parent\<close> is declared in
  \<^verbatim>\<open>BasicBlock.hpp\<close>; the spec: deleting a block removes it from the function's
  block sequence.
\<close>

definition clear_basic_blocks :: "nat \<Rightarrow> dead_code \<Rightarrow> dead_code \<times> bool" where
  "clear_basic_blocks k s =
     (let func = get_functions (m_mod s) ! k;
          to_erase = filter (\<lambda>bb. pre_bbs bb = [] \<and> bid bb \<noteq> entry_block func
                                  \<and> instr_list bb = []) (basic_blocks func);
          changed = (to_erase \<noteq> [])
      in (s\<lparr>m_mod := set_function k
                  (func\<lparr>basic_blocks := fold remove1 to_erase (basic_blocks func)\<rparr>) (m_mod s)\<rparr>,
          changed))"

section \<open>The fixpoint driver\<close>

text \<open>
  The \<^verbatim>\<open>for\<close> loop of \<^verbatim>\<open>DeadCode::run\<close> over the functions of the module, by
  position: a declaration is skipped, any other function is marked, swept and pruned;
  \<open>changed\<close> accumulates with \<^verbatim>\<open>|=\<close>, which evaluates both calls. The loop that
  prints the calls of the function is left out.
\<close>

fun run_funcs :: "(string \<Rightarrow> bool) \<Rightarrow> nat list \<Rightarrow> dead_code \<times> bool \<Rightarrow> dead_code \<times> bool" where
  "run_funcs pure [] sc = sc"
| "run_funcs pure (k # ks) (s, changed) =
     (if is_declaration (get_functions (m_mod s) ! k) then run_funcs pure ks (s, changed)
      else
        let s1 = mark pure k s;
            (s2, c1) = sweep k s1;
            (s3, c2) = clear_basic_blocks k s2
        in run_funcs pure ks (s3, changed \<or> c1 \<or> c2))"

text \<open>One round of the \<^verbatim>\<open>do\<close> loop: \<open>changed\<close> starts false, all functions are visited.\<close>

definition run_pass :: "(string \<Rightarrow> bool) \<Rightarrow> dead_code \<Rightarrow> dead_code \<times> bool" where
  "run_pass pure s = run_funcs pure [0..<length (get_functions (m_mod s))] (s, False)"

text \<open>The \<^verbatim>\<open>do ... while (changed)\<close> loop of \<^verbatim>\<open>DeadCode::run\<close>.\<close>

function run_loop :: "(string \<Rightarrow> bool) \<Rightarrow> dead_code \<Rightarrow> dead_code" where
  "run_loop pure s =
     (case run_pass pure s of (s', changed) \<Rightarrow> if changed then run_loop pure s' else s')"
  by pat_completeness auto

text \<open>
  \<^verbatim>\<open>DeadCode::run\<close>. \<^verbatim>\<open>func_info->run()\<close> analyses the module as it stands when
  the pass starts; \<^verbatim>\<open>FuncInfo\<close> is outside \<^verbatim>\<open>DeadCode.cpp\<close>, so the analysis is the
  parameter \<open>func_info\<close>, and its answers stay fixed during the loop. Neither
  \<^verbatim>\<open>ins_count\<close> nor any other member is assigned before the loop. The value of
  \<^verbatim>\<open>ins_count\<close> at the end is what the function logs.
\<close>

definition run :: "(module \<Rightarrow> string \<Rightarrow> bool) \<Rightarrow> dead_code \<Rightarrow> dead_code" where
  "run func_info s = run_loop (func_info (m_mod s)) s"

section \<open>Collecting functions and globals\<close>

text \<open>
  \<^verbatim>\<open>DeadCode::sweep_globally\<close>: both lists are collected before anything is erased.
  Erasing a function from the module takes its instructions, and so their operand
  references, out of the module.
\<close>

definition sweep_globally :: "dead_code \<Rightarrow> dead_code" where
  "sweep_globally s =
     (let m = m_mod s;
          unused_funcs = filter (\<lambda>f_r. length (get_use_list m (VFunction (fname f_r))) = 0
                                       \<and> fname f_r \<noteq> ''main'') (get_functions m);
          unused_globals = filter (\<lambda>glob_var_r.
              length (get_use_list m (VGlobal (gname glob_var_r))) = 0) (get_global_variable m)
      in s\<lparr>m_mod := m\<lparr>get_functions := fold remove1 unused_funcs (get_functions m),
                         get_global_variable :=
                           fold remove1 unused_globals (get_global_variable m)\<rparr>\<rparr>)"

section \<open>Notions used in the proofs\<close>

text \<open>
  The operand relation on instruction addresses: \<open>(i, j)\<close> when the instruction at
  \<open>i\<close> has the instruction at \<open>j\<close> among its operands. Operands that are not
  instructions give no edge.
\<close>

definition operand_edge :: "module \<Rightarrow> (iid \<times> iid) set" where
  "operand_edge m = {(i, j). VInstr j \<in> set (get_operands m i)}"

text \<open>
  The invariant of the worklist loop: every operand of a marked instruction is marked or
  queued. \<open>val_ids\<close> are the instructions among a list of operands.
\<close>

definition wl_closed :: "module \<Rightarrow> iid list \<Rightarrow> iid set \<Rightarrow> bool" where
  "wl_closed m wl mk = ((operand_edge m) `` mk \<subseteq> mk \<union> set wl)"

definition val_ids :: "val list \<Rightarrow> iid set" where
  "val_ids vs = {j. VInstr j \<in> set vs}"

text \<open>The measure of the driver loop: the blocks and instructions of the module.\<close>

definition func_size :: "func \<Rightarrow> nat" where
  "func_size f = length (basic_blocks f) + length (func_instrs f)"

definition module_size :: "module \<Rightarrow> nat" where
  "module_size m = sum_list (map func_size (get_functions m))"

text \<open>
  What \<^verbatim>\<open>sweep\<close> makes of one block, and the blocks \<^verbatim>\<open>clear_basic_blocks\<close>
  deletes.
\<close>

definition sweep_block :: "iid set \<Rightarrow> basic_block \<Rightarrow> basic_block" where
  "sweep_block mk bb = bb\<lparr>instr_list := fold remove1 (wait_del_of mk bb) (instr_list bb)\<rparr>"

definition prunable :: "func \<Rightarrow> basic_block \<Rightarrow> bool" where
  "prunable func bb = (pre_bbs bb = [] \<and> bid bb \<noteq> entry_block func \<and> instr_list bb = [])"

text \<open>One function of the loop body, for a function that is not a declaration.\<close>

definition run_func :: "(string \<Rightarrow> bool) \<Rightarrow> nat \<Rightarrow> dead_code \<Rightarrow> dead_code \<times> bool" where
  "run_func pure k s =
     (let s1 = mark pure k s; (s2, c1) = sweep k s1; (s3, c2) = clear_basic_blocks k s2
      in (s3, c1 \<or> c2))"

text \<open>What \<^verbatim>\<open>sweep\<close> would collect in the function at position \<open>k\<close> after marking.\<close>

definition dead_after_mark :: "(string \<Rightarrow> bool) \<Rightarrow> module \<Rightarrow> nat \<Rightarrow> (nat \<times> instr) list" where
  "dead_after_mark pure m k =
     collect_wait_del
       (mark_loop m (critical_seeds pure m (get_functions m ! k)) {})
       (basic_blocks (get_functions m ! k))"

text \<open>The number of instructions of the module.\<close>

definition num_instrs :: "module \<Rightarrow> nat" where
  "num_instrs m = length (module_instrs m)"

text \<open>
  An instruction is reachable from a critical instruction of the function through operand
  edges.
\<close>

definition reachable_from_critical ::
  "(string \<Rightarrow> bool) \<Rightarrow> module \<Rightarrow> func \<Rightarrow> instr \<Rightarrow> bool" where
  "reachable_from_critical pure m func ins =
     (\<exists>c\<in>set (func_instrs func).
        is_critical pure m c \<and> (iid c, iid ins) \<in> (operand_edge m)\<^sup>*)"

section \<open>Worked modules\<close>

text \<open>
  A module with the declaration \<^verbatim>\<open>output\<close>, the function \<^verbatim>\<open>pure_helper\<close> and
  \<^verbatim>\<open>main\<close>. The entry block of \<^verbatim>\<open>main\<close> holds a chain of two unused computations, an
  unused call of the pure function, a call through a parameter, a call of the declaration
  with a computed argument, and the return; block 1 is empty and block 2 holds one
  instruction and no terminator.
\<close>

definition ex_output :: func where
  "ex_output = \<lparr>fname = ''output'', is_declaration = True, entry_block = 0, basic_blocks = []\<rparr>"

definition ex_pure_helper :: func where
  "ex_pure_helper =
     \<lparr>fname = ''pure_helper'', is_declaration = False, entry_block = 10,
      basic_blocks =
        [\<lparr>bid = 10, instr_list = [\<lparr>iid = 10, opc = Ret, operands = [VConst 0]\<rparr>],
          pre_bbs = []\<rparr>]\<rparr>"

definition ex_dead_inner :: instr where
  "ex_dead_inner = \<lparr>iid = 7, opc = Add, operands = [VConst 1, VConst 2]\<rparr>"

definition ex_dead_outer :: instr where
  "ex_dead_outer = \<lparr>iid = 6, opc = Sub, operands = [VInstr 7, VConst 1]\<rparr>"

definition ex_call_pure :: instr where
  "ex_call_pure = \<lparr>iid = 1, opc = Call, operands = [VFunction ''pure_helper'']\<rparr>"

definition ex_call_unresolved :: instr where
  "ex_call_unresolved = \<lparr>iid = 8, opc = Call, operands = [VArg 0]\<rparr>"

definition ex_add :: instr where
  "ex_add = \<lparr>iid = 3, opc = Add, operands = [VConst 1, VConst 2]\<rparr>"

definition ex_call_output :: instr where
  "ex_call_output = \<lparr>iid = 2, opc = Call, operands = [VFunction ''output'', VInstr 3]\<rparr>"

definition ex_ret :: instr where
  "ex_ret = \<lparr>iid = 4, opc = Ret, operands = []\<rparr>"

definition ex_mul :: instr where
  "ex_mul = \<lparr>iid = 5, opc = Mul, operands = [VConst 1, VConst 2]\<rparr>"

definition ex_main :: func where
  "ex_main =
     \<lparr>fname = ''main'', is_declaration = False, entry_block = 0,
      basic_blocks =
        [\<lparr>bid = 0,
          instr_list = [ex_dead_inner, ex_dead_outer, ex_call_pure, ex_call_unresolved,
                        ex_add, ex_call_output, ex_ret],
          pre_bbs = []\<rparr>,
         \<lparr>bid = 1, instr_list = [], pre_bbs = []\<rparr>,
         \<lparr>bid = 2, instr_list = [ex_mul], pre_bbs = []\<rparr>]\<rparr>"

definition ex_module :: module where
  "ex_module = \<lparr>get_functions = [ex_output, ex_pure_helper, ex_main], get_global_variable = []\<rparr>"

text \<open>
  A purity analysis for the example: a function of the module is pure when it is defined,
  is not \<^verbatim>\<open>main\<close>, and holds no store, load or call.
\<close>

definition ex_func_info :: "module \<Rightarrow> string \<Rightarrow> bool" where
  "ex_func_info m n =
     (case find (\<lambda>f. fname f = n) (get_functions m) of
        None \<Rightarrow> False
      | Some f \<Rightarrow> \<not> is_declaration f \<and> fname f \<noteq> ''main''
          \<and> list_all (\<lambda>i. opc i \<noteq> Store \<and> opc i \<noteq> Load \<and> opc i \<noteq> Call) (func_instrs f))"

text \<open>The pass object before \<^verbatim>\<open>run\<close>, and \<^verbatim>\<open>main\<close> and the module as \<^verbatim>\<open>run\<close> leaves them.\<close>

definition ex_pass :: dead_code where
  "ex_pass = \<lparr>m_mod = ex_module, ins_count = 0, marked = {}, work_list = []\<rparr>"

definition ex_main_after :: func where
  "ex_main_after =
     \<lparr>fname = ''main'', is_declaration = False, entry_block = 0,
      basic_blocks =
        [\<lparr>bid = 0, instr_list = [ex_add, ex_call_output, ex_ret], pre_bbs = []\<rparr>,
         \<lparr>bid = 2, instr_list = [ex_mul], pre_bbs = []\<rparr>]\<rparr>"

definition ex_module_after :: module where
  "ex_module_after =
     \<lparr>get_functions = [ex_output, ex_pure_helper, ex_main_after], get_global_variable = []\<rparr>"

definition ex_entry_after :: basic_block where
  "ex_entry_after = \<lparr>bid = 0, instr_list = [ex_add, ex_call_output, ex_ret], pre_bbs = []\<rparr>"

text \<open>
  A second module: \<^verbatim>\<open>helper\<close> loads a global without using the value and returns;
  \<^verbatim>\<open>main\<close> calls \<^verbatim>\<open>helper\<close> without using the result.
\<close>

definition ex_helper :: func where
  "ex_helper =
     \<lparr>fname = ''helper'', is_declaration = False, entry_block = 0,
      basic_blocks =
        [\<lparr>bid = 0,
          instr_list = [\<lparr>iid = 20, opc = Load, operands = [VGlobal ''g'']\<rparr>,
                        \<lparr>iid = 21, opc = Ret, operands = [VConst 0]\<rparr>],
          pre_bbs = []\<rparr>]\<rparr>"

definition ex_caller :: func where
  "ex_caller =
     \<lparr>fname = ''main'', is_declaration = False, entry_block = 1,
      basic_blocks =
        [\<lparr>bid = 1,
          instr_list = [\<lparr>iid = 22, opc = Call, operands = [VFunction ''helper'']\<rparr>,
                        \<lparr>iid = 23, opc = Ret, operands = []\<rparr>],
          pre_bbs = []\<rparr>]\<rparr>"

definition ex_load_pass :: dead_code where
  "ex_load_pass =
     \<lparr>m_mod = \<lparr>get_functions = [ex_caller, ex_helper],
                get_global_variable = [\<lparr>gname = ''g''\<rparr>]\<rparr>,
      ins_count = 0, marked = {}, work_list = []\<rparr>"

text \<open>
  A third module, for \<^verbatim>\<open>sweep_globally\<close>: nothing calls \<^verbatim>\<open>a\<close>, and \<^verbatim>\<open>a\<close> is the
  only caller of \<^verbatim>\<open>c\<close>. The global \<^verbatim>\<open>used\<close> is loaded by \<^verbatim>\<open>main\<close>.
\<close>

definition ex_chain_pass :: dead_code where
  "ex_chain_pass =
     \<lparr>m_mod =
        \<lparr>get_functions =
           [\<lparr>fname = ''main'', is_declaration = False, entry_block = 0,
             basic_blocks =
               [\<lparr>bid = 0,
                 instr_list = [\<lparr>iid = 30, opc = Load, operands = [VGlobal ''used'']\<rparr>,
                               \<lparr>iid = 31, opc = Ret, operands = [VInstr 30]\<rparr>],
                 pre_bbs = []\<rparr>]\<rparr>,
            \<lparr>fname = ''a'', is_declaration = False, entry_block = 1,
             basic_blocks =
               [\<lparr>bid = 1,
                 instr_list = [\<lparr>iid = 32, opc = Call, operands = [VFunction ''c'']\<rparr>,
                               \<lparr>iid = 33, opc = Ret, operands = []\<rparr>],
                 pre_bbs = []\<rparr>]\<rparr>,
            \<lparr>fname = ''c'', is_declaration = False, entry_block = 2,
             basic_blocks =
               [\<lparr>bid = 2, instr_list = [\<lparr>iid = 34, opc = Ret, operands = []\<rparr>],
                 pre_bbs = []\<rparr>]\<rparr>],
         get_global_variable = [\<lparr>gname = ''used''\<rparr>, \<lparr>gname = ''unused''\<rparr>]\<rparr>,
      ins_count = 0, marked = {}, work_list = []\<rparr>"

section \<open>Termination of the loops\<close>

subsection \<open>The worklist loop and the recursive marker\<close>

lemma get_operands_outside: "i \<notin> instr_ids m \<Longrightarrow> get_operands m i = []"
  by (auto simp: get_operands_def find_instr_def instr_ids_def find_Some_iff
      split: option.splits)

lemma instr_operands_outside: "i \<notin> instr_ids m \<Longrightarrow> instr_operands m i = []"
  by (simp add: instr_operands_def get_operands_outside)

lemma card_unmarked_less:
  assumes "i \<in> instr_ids m" "i \<notin> mk"
  shows "card (instr_ids m - insert i mk) < card (instr_ids m - mk)"
proof -
  have "finite (instr_ids m - mk)" by (simp add: instr_ids_def)
  moreover have "instr_ids m - insert i mk \<subset> instr_ids m - mk" using assms by auto
  ultimately show ?thesis by (rule psubset_card_mono)
qed

termination mark_loop
proof (relation "measures [\<lambda>(m, wl, mk). card (instr_ids m - mk), \<lambda>(m, wl, mk). length wl]")
  show "wf (measures [\<lambda>(m, wl, mk). card (instr_ids m - mk), \<lambda>(m, wl, mk). length wl])"
    by simp
next
  fix m :: module and i :: iid and wl :: "iid list" and mk :: "iid set"
  assume "i \<in> mk"
  then show "((m, wl, mk), (m, i # wl, mk))
      \<in> measures [\<lambda>(m, wl, mk). card (instr_ids m - mk), \<lambda>(m, wl, mk). length wl]"
    by simp
next
  fix m :: module and i :: iid and wl :: "iid list" and mk :: "iid set"
  assume "i \<notin> mk"
  then show "((m, wl @ filter (\<lambda>j. j \<notin> insert i mk) (instr_operands m i), insert i mk),
       (m, i # wl, mk))
      \<in> measures [\<lambda>(m, wl, mk). card (instr_ids m - mk), \<lambda>(m, wl, mk). length wl]"
    using card_unmarked_less [of i m mk]
    by (cases "i \<in> instr_ids m") (auto simp: instr_operands_outside)
qed

lemma mark_rec_grows:
  "mark_ins_mark_ops_dom (Inl (m, i, mk)) \<Longrightarrow> mk \<subseteq> mark_ins m i mk"
  "mark_ins_mark_ops_dom (Inr (m, vs, mk)) \<Longrightarrow> mk \<subseteq> mark_ops m vs mk"
proof (induction m i mk and m vs mk rule: mark_ins_mark_ops.pinduct)
  case (1 m i mk)
  then show ?case by (auto simp: mark_ins.psimps)
next
  case (2 m mk)
  then show ?case by (simp add: mark_ops.psimps)
next
  case (3 m v vs mk)
  then show ?case by (cases v) (auto simp: mark_ops.psimps)
qed

termination mark_ins
  apply (relation "measures [\<lambda>x. case x of Inl (m, i, mk) \<Rightarrow> card (instr_ids m - mk) | Inr (m, vs, mk) \<Rightarrow> card (instr_ids m - mk),
      \<lambda>x. case x of Inl (m, i, mk) \<Rightarrow> 1 | Inr (m, vs, mk) \<Rightarrow> (if vs = [] then 0 else 2),
      \<lambda>x. case x of Inl (m, i, mk) \<Rightarrow> 0 | Inr (m, vs, mk) \<Rightarrow> length vs]")
  apply simp
  subgoal for m i mk
    using card_unmarked_less [of i m mk]
    by (cases "i \<in> instr_ids m") (auto simp: get_operands_outside)
  subgoal by simp
  subgoal for m v vs mk j
  proof -
    assume d: "mark_ins_mark_ops_dom (Inl (m, j, mk))"
    have "instr_ids m - mark_ins m j mk \<subseteq> instr_ids m - mk"
      using mark_rec_grows(1)[OF d] by auto
    moreover have "finite (instr_ids m - mk)" by (simp add: instr_ids_def)
    ultimately have "card (instr_ids m - mark_ins m j mk) \<le> card (instr_ids m - mk)"
      by (rule card_mono[rotated])
    then show ?thesis by (cases vs) auto
  qed
  subgoal by auto
  subgoal by auto
  subgoal by auto
  subgoal by auto
  subgoal by auto
  done

subsection \<open>Erasing collected list nodes\<close>

lemma fold_remove1_filter_append:
  "\<forall>y\<in>set ys. \<not> P y \<Longrightarrow>
     fold remove1 (filter P xs) (ys @ xs) = ys @ filter (\<lambda>x. \<not> P x) xs"
proof (induction xs arbitrary: ys)
  case Nil
  then show ?case by simp
next
  case (Cons x xs)
  show ?case
  proof (cases "P x")
    case True
    with Cons.prems have "x \<notin> set ys" by auto
    then have "remove1 x (ys @ x # xs) = ys @ xs" by (simp add: remove1_append)
    with True Cons.IH [OF Cons.prems] show ?thesis by simp
  next
    case False
    with Cons.prems have "\<forall>y\<in>set (ys @ [x]). \<not> P y" by simp
    from Cons.IH [OF this] False show ?thesis by simp
  qed
qed

lemma fold_remove1_filter: "fold remove1 (filter P xs) xs = filter (\<lambda>x. \<not> P x) xs"
  using fold_remove1_filter_append [of "[]" P xs] by simp

lemma fold_erase_one_block:
  "j < length bbs \<Longrightarrow>
   fold erase_instr (map (Pair j) ds) bbs =
     bbs[j := (bbs ! j)\<lparr>instr_list := fold remove1 ds (instr_list (bbs ! j))\<rparr>]"
proof (induction ds arbitrary: bbs)
  case Nil
  then show ?case by simp
next
  case (Cons d ds)
  then show ?case by (simp add: erase_instr_def)
qed

lemma fold_erase_blocks:
  assumes "distinct js" "\<forall>j\<in>set js. j < length bbs"
  shows "fold erase_instr (concat (map (\<lambda>j. map (Pair j) (d j)) js)) bbs =
     map (\<lambda>j. if j \<in> set js
               then (bbs ! j)\<lparr>instr_list := fold remove1 (d j) (instr_list (bbs ! j))\<rparr>
               else bbs ! j) [0..<length bbs]"
  using assms
proof (induction js arbitrary: bbs)
  case Nil
  then show ?case by (simp add: map_nth)
next
  case (Cons j js)
  let ?b = "bbs[j := (bbs ! j)\<lparr>instr_list := fold remove1 (d j) (instr_list (bbs ! j))\<rparr>]"
  from Cons.prems have j: "j < length bbs" "j \<notin> set js" by auto
  have "fold erase_instr (concat (map (\<lambda>j. map (Pair j) (d j)) (j # js))) bbs =
        fold erase_instr (concat (map (\<lambda>j. map (Pair j) (d j)) js)) ?b"
    using j by (simp add: fold_erase_one_block)
  also have "\<dots> = map (\<lambda>i. if i \<in> set js
               then (?b ! i)\<lparr>instr_list := fold remove1 (d i) (instr_list (?b ! i))\<rparr>
               else ?b ! i) [0..<length ?b]"
    using Cons.prems by (intro Cons.IH) auto
  also have "\<dots> = map (\<lambda>i. if i \<in> set (j # js)
               then (bbs ! i)\<lparr>instr_list := fold remove1 (d i) (instr_list (bbs ! i))\<rparr>
               else bbs ! i) [0..<length bbs]"
    using j by (auto simp: nth_list_update)
  finally show ?case .
qed

lemma fold_erase_collect:
  "fold erase_instr (collect_wait_del mk bbs) bbs = map (sweep_block mk) bbs"
proof -
  have "fold erase_instr (collect_wait_del mk bbs) bbs =
      map (\<lambda>j. if j \<in> set [0..<length bbs]
               then (bbs ! j)\<lparr>instr_list := fold remove1 (wait_del_of mk (bbs ! j)) (instr_list (bbs ! j))\<rparr>
               else bbs ! j) [0..<length bbs]"
    unfolding collect_wait_del_def by (rule fold_erase_blocks) auto
  also have "\<dots> = map (sweep_block mk) bbs"
    by (rule nth_equalityI) (auto simp: sweep_block_def)
  finally show ?thesis .
qed

lemma wait_del_of_nonterm: "ins \<in> set (wait_del_of mk bb) \<Longrightarrow> \<not> isTerminator ins"
  by (auto simp: wait_del_of_def split: if_splits)

lemma collect_wait_del_nonterm:
  "p \<in> set (collect_wait_del mk bbs) \<Longrightarrow> \<not> isTerminator (snd p)"
  by (auto simp: collect_wait_del_def dest: wait_del_of_nonterm)

lemma fold_sweep_step:
  "\<forall>p\<in>set ps. \<not> isTerminator (snd p) \<Longrightarrow>
   fold sweep_step ps (bbs, c) = (fold erase_instr ps bbs, c + length ps)"
  by (induction ps arbitrary: bbs c) (auto simp: sweep_step_def)

lemma sweep_eq:
  "sweep k s =
     (s\<lparr>m_mod := set_function k
          ((get_functions (m_mod s) ! k)
             \<lparr>basic_blocks := map (sweep_block (marked s))
                 (basic_blocks (get_functions (m_mod s) ! k))\<rparr>) (m_mod s),
        ins_count := ins_count s
          + length (collect_wait_del (marked s) (basic_blocks (get_functions (m_mod s) ! k)))\<rparr>,
      collect_wait_del (marked s) (basic_blocks (get_functions (m_mod s) ! k)) \<noteq> [])"
proof -
  have "\<forall>p\<in>set (collect_wait_del (marked s) (basic_blocks (get_functions (m_mod s) ! k))).
      \<not> isTerminator (snd p)"
    by (auto dest: collect_wait_del_nonterm)
  then show ?thesis
    by (simp add: sweep_def Let_def fold_sweep_step fold_erase_collect)
qed

lemma is_terminated_nonempty: "is_terminated bb \<Longrightarrow> instr_list bb \<noteq> []"
  by (auto simp: is_terminated_def)

lemma instr_list_sweep_block:
  "instr_list (sweep_block mk bb) =
     (if is_terminated bb
      then filter (\<lambda>ins. isTerminator ins \<or> iid ins \<in> mk) (instr_list bb)
      else instr_list bb)"
proof -
  have "fold remove1 (filter (\<lambda>ins. \<not> isTerminator ins \<and> iid ins \<notin> mk) (instr_list bb))
      (instr_list bb) = filter (\<lambda>ins. isTerminator ins \<or> iid ins \<in> mk) (instr_list bb)"
    by (simp add: fold_remove1_filter)
  then show ?thesis
    by (auto simp: sweep_block_def wait_del_of_def dest: is_terminated_nonempty)
qed

lemma length_sweep_block:
  "length (instr_list (sweep_block mk bb)) + length (wait_del_of mk bb) = length (instr_list bb)"
proof -
  have "length (filter (\<lambda>ins. isTerminator ins \<or> iid ins \<in> mk) (instr_list bb))
      + length (filter (\<lambda>ins. \<not> isTerminator ins \<and> iid ins \<notin> mk) (instr_list bb))
      = length (instr_list bb)"
    using sum_length_filter_compl [of "\<lambda>ins. isTerminator ins \<or> iid ins \<in> mk" "instr_list bb"]
    by simp
  then show ?thesis
    by (auto simp: instr_list_sweep_block wait_del_of_def dest: is_terminated_nonempty)
qed

lemma length_collect_wait_del:
  "length (collect_wait_del mk bbs) = sum_list (map (\<lambda>bb. length (wait_del_of mk bb)) bbs)"
proof -
  have "map (\<lambda>j. length (wait_del_of mk (bbs ! j))) [0..<length bbs]
      = map (\<lambda>bb. length (wait_del_of mk bb)) bbs"
    by (rule nth_equalityI) auto
  then show ?thesis
    by (simp add: collect_wait_del_def length_concat comp_def)
qed

lemma length_instrs_sweep_blocks:
  "length (concat (map instr_list (map (sweep_block mk) bbs)))
     + length (collect_wait_del mk bbs) = length (concat (map instr_list bbs))"
proof (induction bbs)
  case Nil
  then show ?case by (simp add: collect_wait_del_def)
next
  case (Cons bb bbs)
  then show ?case
    using length_sweep_block [of mk bb]
    by (simp add: length_collect_wait_del)
qed

lemma sum_list_map_update:
  "k < length xs \<Longrightarrow>
   sum_list (map g (xs[k := y])) + g (xs ! k) = sum_list (map g xs) + (g y :: nat)"
proof (induction xs arbitrary: k)
  case Nil
  then show ?case by simp
next
  case (Cons x xs)
  then show ?case by (cases k) auto
qed

lemma module_size_set_function:
  "k < length (get_functions m) \<Longrightarrow>
   module_size (set_function k f m) + func_size (get_functions m ! k)
     = module_size m + func_size f"
  by (simp add: module_size_def set_function_def sum_list_map_update)

lemma get_functions_set_function [simp]:
  "length (get_functions (set_function k f m)) = length (get_functions m)"
  by (simp add: set_function_def)

lemma sweep_size:
  assumes "k < length (get_functions (m_mod s))"
  shows "module_size (m_mod (fst (sweep k s)))
           + length (collect_wait_del (marked s) (basic_blocks (get_functions (m_mod s) ! k)))
         = module_size (m_mod s)"
proof -
  let ?f = "get_functions (m_mod s) ! k"
  let ?f' = "?f\<lparr>basic_blocks := map (sweep_block (marked s)) (basic_blocks ?f)\<rparr>"
  have "func_size ?f' + length (collect_wait_del (marked s) (basic_blocks ?f)) = func_size ?f"
    using length_instrs_sweep_blocks [of "marked s" "basic_blocks ?f"]
    by (simp add: func_size_def func_instrs_def)
  with module_size_set_function [OF assms, of ?f'] show ?thesis
    by (simp add: sweep_eq)
qed

lemma clear_basic_blocks_eq:
  "clear_basic_blocks k s =
     (s\<lparr>m_mod := set_function k
          ((get_functions (m_mod s) ! k)
             \<lparr>basic_blocks := filter (\<lambda>bb. \<not> prunable (get_functions (m_mod s) ! k) bb)
                 (basic_blocks (get_functions (m_mod s) ! k))\<rparr>) (m_mod s)\<rparr>,
      filter (prunable (get_functions (m_mod s) ! k))
        (basic_blocks (get_functions (m_mod s) ! k)) \<noteq> [])"
proof -
  have "prunable (get_functions (m_mod s) ! k) =
      (\<lambda>bb. pre_bbs bb = [] \<and> bid bb \<noteq> entry_block (get_functions (m_mod s) ! k)
            \<and> instr_list bb = [])"
    by (rule ext) (simp add: prunable_def)
  then show ?thesis
    by (simp only: clear_basic_blocks_def Let_def fold_remove1_filter)
qed

lemma snd_sweep:
  "snd (sweep k s) =
     (0 < length (collect_wait_del (marked s) (basic_blocks (get_functions (m_mod s) ! k))))"
  by (simp add: sweep_eq)

lemma snd_clear_basic_blocks:
  "snd (clear_basic_blocks k s) =
     (0 < length (filter (prunable (get_functions (m_mod s) ! k))
        (basic_blocks (get_functions (m_mod s) ! k))))"
  by (simp add: clear_basic_blocks_eq)

lemma concat_filter_nonprunable:
  "concat (map instr_list (filter (\<lambda>bb. \<not> prunable f bb) bbs)) = concat (map instr_list bbs)"
  by (induction bbs) (auto simp: prunable_def)

lemma clear_basic_blocks_size:
  assumes "k < length (get_functions (m_mod s))"
  shows "module_size (m_mod (fst (clear_basic_blocks k s)))
           + length (filter (prunable (get_functions (m_mod s) ! k))
               (basic_blocks (get_functions (m_mod s) ! k)))
         = module_size (m_mod s)"
proof -
  let ?f = "get_functions (m_mod s) ! k"
  let ?f' = "?f\<lparr>basic_blocks := filter (\<lambda>bb. \<not> prunable ?f bb) (basic_blocks ?f)\<rparr>"
  have "func_size ?f' + length (filter (prunable ?f) (basic_blocks ?f)) = func_size ?f"
    using sum_length_filter_compl [of "prunable ?f" "basic_blocks ?f"]
    by (simp add: func_size_def func_instrs_def concat_filter_nonprunable)
  with module_size_set_function [OF assms, of ?f'] show ?thesis
    by (simp add: clear_basic_blocks_eq)
qed

lemma m_mod_mark [simp]: "m_mod (mark pure k s) = m_mod s"
  by (simp add: mark_def Let_def)

lemma length_functions_sweep [simp]:
  "length (get_functions (m_mod (fst (sweep k s)))) = length (get_functions (m_mod s))"
  by (simp add: sweep_eq)

lemma length_functions_clear [simp]:
  "length (get_functions (m_mod (fst (clear_basic_blocks k s)))) = length (get_functions (m_mod s))"
  by (simp add: clear_basic_blocks_eq)

lemma run_funcs_Cons:
  "run_funcs pure (k # ks) (s, changed) =
     (if is_declaration (get_functions (m_mod s) ! k) then run_funcs pure ks (s, changed)
      else run_funcs pure ks (fst (run_func pure k s), changed \<or> snd (run_func pure k s)))"
  by (simp add: run_func_def Let_def split: prod.splits)

lemma run_func_size:
  assumes "k < length (get_functions (m_mod s))"
  shows "length (get_functions (m_mod (fst (run_func pure k s)))) = length (get_functions (m_mod s))"
    and "module_size (m_mod (fst (run_func pure k s))) \<le> module_size (m_mod s)"
    and "snd (run_func pure k s) \<Longrightarrow>
           module_size (m_mod (fst (run_func pure k s))) < module_size (m_mod s)"
proof -
  let ?s1 = "mark pure k s"
  let ?s2 = "fst (sweep k ?s1)"
  let ?s3 = "fst (clear_basic_blocks k ?s2)"
  have r: "run_func pure k s = (?s3, snd (sweep k ?s1) \<or> snd (clear_basic_blocks k ?s2))"
    by (simp add: run_func_def Let_def split: prod.splits)
  have k1: "k < length (get_functions (m_mod ?s1))" using assms by simp
  then have k2: "k < length (get_functions (m_mod ?s2))" by simp
  note a = sweep_size [OF k1] and b = clear_basic_blocks_size [OF k2]
  show "length (get_functions (m_mod (fst (run_func pure k s)))) = length (get_functions (m_mod s))"
    by (simp add: r)
  show "module_size (m_mod (fst (run_func pure k s))) \<le> module_size (m_mod s)"
    using a b by (simp add: r)
  show "module_size (m_mod (fst (run_func pure k s))) < module_size (m_mod s)"
    if "snd (run_func pure k s)"
  proof -
    from that have "snd (sweep k ?s1) \<or> snd (clear_basic_blocks k ?s2)" by (simp add: r)
    then have "0 < length (collect_wait_del (marked ?s1) (basic_blocks (get_functions (m_mod ?s1) ! k)))
       \<or> 0 < length (filter (prunable (get_functions (m_mod ?s2) ! k))
               (basic_blocks (get_functions (m_mod ?s2) ! k)))"
      by (simp only: snd_sweep snd_clear_basic_blocks)
    with a b have "module_size (m_mod ?s3) < module_size (m_mod ?s1)" by linarith
    then show ?thesis by (simp add: r)
  qed
qed

lemma run_funcs_size:
  "\<forall>k\<in>set ks. k < length (get_functions (m_mod s)) \<Longrightarrow>
   length (get_functions (m_mod (fst (run_funcs pure ks (s, c))))) = length (get_functions (m_mod s))
   \<and> module_size (m_mod (fst (run_funcs pure ks (s, c)))) \<le> module_size (m_mod s)
   \<and> (snd (run_funcs pure ks (s, c)) \<longrightarrow> c \<or>
         module_size (m_mod (fst (run_funcs pure ks (s, c)))) < module_size (m_mod s))"
proof (induction ks arbitrary: s c)
  case Nil
  then show ?case by simp
next
  case (Cons k ks)
  show ?case
  proof (cases "is_declaration (get_functions (m_mod s) ! k)")
    case True
    with Cons.IH [of s c] Cons.prems show ?thesis by (simp add: run_funcs_Cons del: run_funcs.simps)
  next
    case False
    let ?s' = "fst (run_func pure k s)"
    let ?c' = "c \<or> snd (run_func pure k s)"
    from Cons.prems have k: "k < length (get_functions (m_mod s))" by simp
    note f = run_func_size [OF k, of pure]
    have "\<forall>k\<in>set ks. k < length (get_functions (m_mod ?s'))"
      using Cons.prems f(1) by simp
    from Cons.IH [OF this, of ?c'] f False show ?thesis
      by (auto simp: run_funcs_Cons simp del: run_funcs.simps)
  qed
qed

lemma run_pass_size:
  "snd (run_pass pure s) \<Longrightarrow>
     module_size (m_mod (fst (run_pass pure s))) < module_size (m_mod s)"
  using run_funcs_size [of "[0..<length (get_functions (m_mod s))]" s pure False]
  by (simp add: run_pass_def)

termination run_loop
proof (relation "measure (\<lambda>(pure, s). module_size (m_mod s))")
  show "wf (measure (\<lambda>(pure, s). module_size (m_mod s)))" by simp
next
  fix pure :: "string \<Rightarrow> bool" and s s' :: dead_code and changed :: bool
  assume "(s', changed) = run_pass pure s" "changed"
  then have "snd (run_pass pure s)" "s' = fst (run_pass pure s)"
    by (auto simp: prod_eq_iff)
  with run_pass_size [of pure s]
  show "((pure, s'), (pure, s)) \<in> measure (\<lambda>(pure, s). module_size (m_mod s))"
    by simp
qed

declare run_loop.simps [simp del]

section \<open>Marking computes reachability\<close>

lemma set_instr_operands: "set (instr_operands m i) = {j. (i, j) \<in> operand_edge m}"
  by (auto simp: instr_operands_def operand_edge_def split: val.splits)

lemma closed_reach:
  assumes "wl_closed m wl mk" "(i, j) \<in> (operand_edge m)\<^sup>*" "i \<in> mk"
  shows "j \<in> mk \<union> (operand_edge m)\<^sup>* `` set wl"
  using assms(2,1,3)
proof (induction rule: rtrancl_induct)
  case base
  then show ?case by simp
next
  case (step y z)
  from step have "y \<in> mk \<union> (operand_edge m)\<^sup>* `` set wl" by simp
  then show ?case
  proof
    assume "y \<in> mk"
    with step(2,4) have "z \<in> mk \<union> set wl" by (auto simp: wl_closed_def)
    then show ?thesis by auto
  next
    assume "y \<in> (operand_edge m)\<^sup>* `` set wl"
    with step(2) show ?thesis by (auto intro: rtrancl_into_rtrancl)
  qed
qed

lemma mark_loop_reach:
  "wl_closed m wl mk \<Longrightarrow> mark_loop m wl mk = mk \<union> (operand_edge m)\<^sup>* `` set wl"
proof (induction m wl mk rule: mark_loop.induct)
  case (1 m mk)
  then show ?case by simp
next
  case (2 m i wl mk)
  show ?case
  proof (cases "i \<in> mk")
    case True
    with 2(3) have c: "wl_closed m wl mk" by (auto simp: wl_closed_def)
    have "(operand_edge m)\<^sup>* `` {i} \<subseteq> mk \<union> (operand_edge m)\<^sup>* `` set wl"
      using closed_reach [OF c _ True] by auto
    with True 2(1) [OF True c] show ?thesis by auto
  next
    case False
    let ?new = "filter (\<lambda>j. j \<notin> insert i mk) (instr_operands m i)"
    have c: "wl_closed m (wl @ ?new) (insert i mk)"
      using 2(3) by (auto simp: wl_closed_def set_instr_operands)
    have ih: "mark_loop m (i # wl) mk = insert i mk \<union> (operand_edge m)\<^sup>* `` set (wl @ ?new)"
      using 2(2) [OF False c] False by simp
    have a: "(operand_edge m)\<^sup>* `` {i} \<subseteq> insert i mk \<union> (operand_edge m)\<^sup>* `` set (wl @ ?new)"
      using closed_reach [OF c, of i] by auto
    have b: "(operand_edge m)\<^sup>* `` set ?new \<subseteq> (operand_edge m)\<^sup>* `` {i}"
      by (auto simp: set_instr_operands intro: converse_rtrancl_into_rtrancl)
    show ?thesis unfolding ih using a b by auto
  qed
qed

lemma val_ids_simps [simp]:
  "val_ids [] = {}"
  "val_ids (VInstr j # vs) = insert j (val_ids vs)"
  "val_ids (VFunction n # vs) = val_ids vs"
  "val_ids (VGlobal n # vs) = val_ids vs"
  "val_ids (VBlock b # vs) = val_ids vs"
  "val_ids (VConst c # vs) = val_ids vs"
  "val_ids (VArg a # vs) = val_ids vs"
  by (auto simp: val_ids_def)

lemma edge_val_ids: "operand_edge m `` {i} = val_ids (get_operands m i)"
  by (auto simp: operand_edge_def val_ids_def)

declare mark_ins.simps [simp del]

lemma mark_ins_marked: "i \<in> mk \<Longrightarrow> mark_ins m i mk = mk"
  by (simp add: mark_ins.simps)

lemma mark_ins_unmarked:
  "i \<notin> mk \<Longrightarrow> mark_ins m i mk = mark_ops m (get_operands m i) (insert i mk)"
  by (simp add: mark_ins.simps)

lemma mark_rec_mono:
  "mk \<subseteq> mark_ins m i mk"
  "mk \<subseteq> mark_ops m vs mk"
proof (induction m i mk and m vs mk rule: mark_ins_mark_ops.induct)
  case (1 m i mk)
  then show ?case by (cases "i \<in> mk") (auto simp: mark_ins_marked mark_ins_unmarked)
next
  case (2 m mk)
  then show ?case by simp
next
  case (3 m v vs mk)
  then show ?case by (cases v) auto
qed

lemma mark_rec_upper:
  "mark_ins m i mk \<subseteq> mk \<union> (operand_edge m)\<^sup>* `` {i}"
  "mark_ops m vs mk \<subseteq> mk \<union> (operand_edge m)\<^sup>* `` val_ids vs"
proof (induction m i mk and m vs mk rule: mark_ins_mark_ops.induct)
  case (1 m i mk)
  show ?case
  proof (cases "i \<in> mk")
    case True
    then show ?thesis by (simp add: mark_ins_marked)
  next
    case False
    have "(operand_edge m)\<^sup>* `` val_ids (get_operands m i) \<subseteq> (operand_edge m)\<^sup>* `` {i}"
      using edge_val_ids [of m i] by (auto intro: converse_rtrancl_into_rtrancl)
    with 1 [OF False] False show ?thesis by (auto simp: mark_ins_unmarked)
  qed
next
  case (2 m mk)
  then show ?case by simp
next
  case (3 m v vs mk)
  show ?case
  proof (cases v)
    case (VInstr j)
    have "mark_ops m vs (mark_ins m j mk)
        \<subseteq> mk \<union> (operand_edge m)\<^sup>* `` {j} \<union> (operand_edge m)\<^sup>* `` val_ids vs"
      using 3(1,2) [OF VInstr] by blast
    then show ?thesis using VInstr by auto
  qed (use 3 in auto)
qed

lemma mark_rec_closed:
  "i \<in> mark_ins m i mk \<and> operand_edge m `` (mark_ins m i mk - mk) \<subseteq> mark_ins m i mk"
  "val_ids vs \<subseteq> mark_ops m vs mk \<and> operand_edge m `` (mark_ops m vs mk - mk) \<subseteq> mark_ops m vs mk"
proof (induction m i mk and m vs mk rule: mark_ins_mark_ops.induct)
  case (1 m i mk)
  show ?case
  proof (cases "i \<in> mk")
    case True
    then show ?thesis by (simp add: mark_ins_marked)
  next
    case False
    let ?r = "mark_ops m (get_operands m i) (insert i mk)"
    from 1 [OF False] have a: "val_ids (get_operands m i) \<subseteq> ?r"
      and b: "operand_edge m `` (?r - insert i mk) \<subseteq> ?r" by auto
    have c: "i \<in> ?r" using mark_rec_mono(2) [of "insert i mk" m "get_operands m i"] by auto
    have "operand_edge m `` (?r - mk) \<subseteq> operand_edge m `` {i} \<union> operand_edge m `` (?r - insert i mk)"
      by auto
    with a b have "operand_edge m `` (?r - mk) \<subseteq> ?r" unfolding edge_val_ids by blast
    with c False show ?thesis by (simp add: mark_ins_unmarked)
  qed
next
  case (2 m mk)
  then show ?case by simp
next
  case (3 m v vs mk)
  show ?case
  proof (cases v)
    case (VInstr j)
    let ?a = "mark_ins m j mk"
    let ?r = "mark_ops m vs ?a"
    from 3(1) [OF VInstr] have a1: "j \<in> ?a" and a2: "operand_edge m `` (?a - mk) \<subseteq> ?a" by auto
    from 3(2) [OF VInstr] have b1: "val_ids vs \<subseteq> ?r" and b2: "operand_edge m `` (?r - ?a) \<subseteq> ?r" by auto
    have m: "?a \<subseteq> ?r" by (rule mark_rec_mono(2))
    have "operand_edge m `` (?r - mk) \<subseteq> operand_edge m `` (?a - mk) \<union> operand_edge m `` (?r - ?a)"
      by auto
    with a2 b2 m have "operand_edge m `` (?r - mk) \<subseteq> ?r" by blast
    with a1 b1 m VInstr show ?thesis by auto
  qed (use 3 in simp_all)
qed

lemma fold_mark_ins:
  "mk \<subseteq> fold (mark_ins m) seeds mk \<and> set seeds \<subseteq> fold (mark_ins m) seeds mk
   \<and> operand_edge m `` (fold (mark_ins m) seeds mk - mk) \<subseteq> fold (mark_ins m) seeds mk
   \<and> fold (mark_ins m) seeds mk \<subseteq> mk \<union> (operand_edge m)\<^sup>* `` set seeds"
proof (induction seeds arbitrary: mk)
  case Nil
  then show ?case by simp
next
  case (Cons i seeds)
  let ?a = "mark_ins m i mk"
  let ?r = "fold (mark_ins m) seeds ?a"
  note ih = Cons [of ?a]
  have m: "mk \<subseteq> ?a" by (rule mark_rec_mono(1))
  have i: "i \<in> ?a" and c: "operand_edge m `` (?a - mk) \<subseteq> ?a"
    using mark_rec_closed(1) [of i m mk] by auto
  have u: "?a \<subseteq> mk \<union> (operand_edge m)\<^sup>* `` {i}" by (rule mark_rec_upper(1))
  have "operand_edge m `` (?r - mk) \<subseteq> operand_edge m `` (?a - mk) \<union> operand_edge m `` (?r - ?a)"
    by auto
  with c ih have 1: "operand_edge m `` (?r - mk) \<subseteq> ?r" by blast
  have 2: "?r \<subseteq> mk \<union> (operand_edge m)\<^sup>* `` set (i # seeds)"
  proof -
    have "?r \<subseteq> mk \<union> (operand_edge m)\<^sup>* `` {i} \<union> (operand_edge m)\<^sup>* `` set seeds"
      using ih u by blast
    then show ?thesis by auto
  qed
  have 3: "mk \<subseteq> ?r" using m ih by blast
  have 4: "set (i # seeds) \<subseteq> ?r" using i ih by auto
  from 1 2 3 4 show ?case by simp
qed

lemma closed_contains_reach:
  assumes "operand_edge m `` R \<subseteq> R" "S \<subseteq> R"
  shows "(operand_edge m)\<^sup>* `` S \<subseteq> R"
proof
  fix j assume "j \<in> (operand_edge m)\<^sup>* `` S"
  then obtain i where "i \<in> S" "(i, j) \<in> (operand_edge m)\<^sup>*" by auto
  from this(2) \<open>i \<in> S\<close> assms show "j \<in> R"
    by (induction rule: rtrancl_induct) auto
qed

lemma fold_mark_ins_reach:
  "fold (mark_ins m) seeds {} = (operand_edge m)\<^sup>* `` set seeds"
proof
  show "fold (mark_ins m) seeds {} \<subseteq> (operand_edge m)\<^sup>* `` set seeds"
    using fold_mark_ins [of "{}" m seeds] by auto
  have "operand_edge m `` fold (mark_ins m) seeds {} \<subseteq> fold (mark_ins m) seeds {}"
    and "set seeds \<subseteq> fold (mark_ins m) seeds {}"
    using fold_mark_ins [of "{}" m seeds] by auto
  then show "(operand_edge m)\<^sup>* `` set seeds \<subseteq> fold (mark_ins m) seeds {}"
    by (rule closed_contains_reach)
qed

section \<open>Properties of sweeping, pruning and the driver\<close>

lemma basic_blocks_sweep:
  "k < length (get_functions (m_mod s)) \<Longrightarrow>
   basic_blocks (get_functions (m_mod (fst (sweep k s))) ! k) =
     map (sweep_block (marked s)) (basic_blocks (get_functions (m_mod s) ! k))"
  by (simp add: sweep_eq set_function_def)

lemma filter_nonempty_last: "xs \<noteq> [] \<Longrightarrow> P (last xs) \<Longrightarrow> filter P xs \<noteq> []"
  by (metis filter_empty_conv last_in_set)

lemma last_filter_keep: "xs \<noteq> [] \<Longrightarrow> P (last xs) \<Longrightarrow> last (filter P xs) = last xs"
proof (induction xs)
  case Nil
  then show ?case by simp
next
  case (Cons x xs)
  show ?case
  proof (cases "xs = []")
    case True
    with Cons.prems show ?thesis by simp
  next
    case False
    with Cons.prems have p: "P (last xs)" by simp
    have "filter P xs \<noteq> []" using False p by (rule filter_nonempty_last)
    with Cons.IH [OF False p] False show ?thesis by simp
  qed
qed

subsection \<open>A pass that changes nothing\<close>

lemma sweep_block_id: "wait_del_of mk bb = [] \<Longrightarrow> sweep_block mk bb = bb"
  by (simp add: sweep_block_def)

lemma collect_wait_del_empty:
  "collect_wait_del mk bbs = [] \<longleftrightarrow> (\<forall>bb\<in>set bbs. wait_del_of mk bb = [])"
proof -
  have "collect_wait_del mk bbs = [] \<longleftrightarrow> (\<forall>j<length bbs. wait_del_of mk (bbs ! j) = [])"
    by (auto simp: collect_wait_del_def)
  then show ?thesis by (simp add: all_set_conv_all_nth)
qed

lemma set_function_same:
  "k < length (get_functions m) \<Longrightarrow> set_function k (get_functions m ! k) m = m"
  by (simp add: set_function_def)

lemma sweep_unchanged:
  assumes "k < length (get_functions (m_mod s))" "\<not> snd (sweep k s)"
  shows "fst (sweep k s) = s"
proof -
  let ?f = "get_functions (m_mod s) ! k"
  from assms(2) have e: "collect_wait_del (marked s) (basic_blocks ?f) = []"
    by (simp add: snd_sweep)
  then have "map (sweep_block (marked s)) (basic_blocks ?f) = basic_blocks ?f"
    by (simp add: collect_wait_del_empty map_idI sweep_block_id)
  with e assms(1) show ?thesis
    by (simp add: sweep_eq set_function_same)
qed

lemma clear_basic_blocks_unchanged:
  assumes "k < length (get_functions (m_mod s))" "\<not> snd (clear_basic_blocks k s)"
  shows "fst (clear_basic_blocks k s) = s"
proof -
  let ?f = "get_functions (m_mod s) ! k"
  from assms(2) have "filter (prunable ?f) (basic_blocks ?f) = []"
    by (simp add: snd_clear_basic_blocks)
  then have "filter (\<lambda>bb. \<not> prunable ?f bb) (basic_blocks ?f) = basic_blocks ?f"
    by (simp add: filter_empty_conv filter_id_conv)
  with assms(1) show ?thesis
    by (simp add: clear_basic_blocks_eq set_function_same)
qed

lemma run_func_eq:
  "run_func pure k s =
     (fst (clear_basic_blocks k (fst (sweep k (mark pure k s)))),
      snd (sweep k (mark pure k s))
        \<or> snd (clear_basic_blocks k (fst (sweep k (mark pure k s)))))"
  by (simp add: run_func_def Let_def split: prod.splits)

lemma run_func_unchanged:
  assumes "k < length (get_functions (m_mod s))" "\<not> snd (run_func pure k s)"
  shows "fst (run_func pure k s) = mark pure k s"
    and "collect_wait_del (marked (mark pure k s)) (basic_blocks (get_functions (m_mod s) ! k)) = []"
proof -
  from assms(2) have a: "\<not> snd (sweep k (mark pure k s))"
    and b: "\<not> snd (clear_basic_blocks k (fst (sweep k (mark pure k s))))"
    by (simp_all add: run_func_eq)
  have k: "k < length (get_functions (m_mod (mark pure k s)))" using assms(1) by simp
  have 1: "fst (sweep k (mark pure k s)) = mark pure k s" using k a by (rule sweep_unchanged)
  with b have "\<not> snd (clear_basic_blocks k (mark pure k s))" by simp
  with k have "fst (clear_basic_blocks k (mark pure k s)) = mark pure k s"
    by (rule clear_basic_blocks_unchanged)
  with 1 show "fst (run_func pure k s) = mark pure k s" by (simp add: run_func_eq)
  from a show "collect_wait_del (marked (mark pure k s)) (basic_blocks (get_functions (m_mod s) ! k)) = []"
    by (simp add: snd_sweep)
qed

declare run_funcs.simps(2) [simp del]

lemma run_funcs_flag: "c \<Longrightarrow> snd (run_funcs pure ks (s, c))"
  by (induction ks arbitrary: s) (simp_all add: run_funcs_Cons)

lemma ins_count_mark [simp]: "ins_count (mark pure k s) = ins_count s"
  by (simp add: mark_def Let_def)

lemma marked_mark: "marked (mark pure k s) =
    mark_loop (m_mod s) (critical_seeds pure (m_mod s) (get_functions (m_mod s) ! k)) {}"
  by (simp add: mark_def Let_def)

lemma run_funcs_unchanged:
  assumes "\<forall>k\<in>set ks. k < length (get_functions (m_mod s))"
    and "\<not> snd (run_funcs pure ks (s, c))"
  shows "m_mod (fst (run_funcs pure ks (s, c))) = m_mod s
     \<and> ins_count (fst (run_funcs pure ks (s, c))) = ins_count s
     \<and> (\<forall>k\<in>set ks. \<not> is_declaration (get_functions (m_mod s) ! k)
            \<longrightarrow> dead_after_mark pure (m_mod s) k = [])"
  using assms
proof (induction ks arbitrary: s c)
  case Nil
  then show ?case by simp
next
  case (Cons k ks)
  from Cons.prems(1) have k: "k < length (get_functions (m_mod s))"
    and r: "\<forall>k\<in>set ks. k < length (get_functions (m_mod s))" by simp_all
  show ?case
  proof (cases "is_declaration (get_functions (m_mod s) ! k)")
    case True
    then have e: "run_funcs pure (k # ks) (s, c) = run_funcs pure ks (s, c)"
      by (simp add: run_funcs_Cons)
    from Cons.prems(2) have n: "\<not> snd (run_funcs pure ks (s, c))" unfolding e .
    note ih = Cons.IH [OF r n]
    show ?thesis unfolding e using ih True by simp
  next
    case False
    let ?s' = "fst (run_func pure k s)"
    let ?c' = "c \<or> snd (run_func pure k s)"
    from False have e: "run_funcs pure (k # ks) (s, c) = run_funcs pure ks (?s', ?c')"
      by (simp add: run_funcs_Cons)
    from Cons.prems(2) have n: "\<not> snd (run_funcs pure ks (?s', ?c'))" unfolding e .
    have "\<not> ?c'"
    proof
      assume "?c'"
      then have "snd (run_funcs pure ks (?s', ?c'))" by (rule run_funcs_flag)
      with n show False by simp
    qed
    then have nc: "\<not> snd (run_func pure k s)" by simp
    note u = run_func_unchanged [OF k nc]
    have m: "m_mod ?s' = m_mod s" and i: "ins_count ?s' = ins_count s"
      by (simp_all add: u(1))
    have r': "\<forall>k\<in>set ks. k < length (get_functions (m_mod ?s'))"
      using r by (simp only: m)
    note ih = Cons.IH [OF r' n]
    have d: "dead_after_mark pure (m_mod s) k = []"
      using u(2) by (simp add: dead_after_mark_def marked_mark)
    from ih have 1: "m_mod (fst (run_funcs pure ks (?s', ?c'))) = m_mod s"
      and 2: "ins_count (fst (run_funcs pure ks (?s', ?c'))) = ins_count s"
      and 3: "\<forall>k\<in>set ks. \<not> is_declaration (get_functions (m_mod s) ! k)
            \<longrightarrow> dead_after_mark pure (m_mod s) k = []"
      by (simp_all only: m i) blast+
    show ?thesis unfolding e using 1 2 3 d by simp
  qed
qed

lemma run_func_cong:
  "m_mod s = m_mod t \<Longrightarrow> ins_count s = ins_count t \<Longrightarrow> run_func pure k s = run_func pure k t"
  by (simp add: run_func_eq sweep_eq clear_basic_blocks_eq mark_def Let_def)

lemma run_funcs_stable:
  assumes "\<forall>k\<in>set ks. k < length (get_functions (m_mod s))"
    and "run_funcs pure ks (s, False) = (s', False)"
  shows "run_funcs pure ks (s', False) = (s', False)"
  using assms
proof (induction ks arbitrary: s)
  case Nil
  then show ?case by simp
next
  case (Cons k ks)
  from Cons.prems(1) have k: "k < length (get_functions (m_mod s))"
    and r: "\<forall>k\<in>set ks. k < length (get_functions (m_mod s))" by simp_all
  from Cons.prems(2) have n: "\<not> snd (run_funcs pure (k # ks) (s, False))" by simp
  from run_funcs_unchanged [OF Cons.prems(1) n] Cons.prems(2)
  have same: "m_mod s' = m_mod s" "ins_count s' = ins_count s" by simp_all
  show ?case
  proof (cases "is_declaration (get_functions (m_mod s) ! k)")
    case True
    then have e: "run_funcs pure (k # ks) (s, False) = run_funcs pure ks (s, False)"
      by (simp add: run_funcs_Cons)
    from True same have e': "run_funcs pure (k # ks) (s', False) = run_funcs pure ks (s', False)"
      by (simp add: run_funcs_Cons)
    from Cons.prems(2) have "run_funcs pure ks (s, False) = (s', False)" unfolding e .
    from Cons.IH [OF r this] show ?thesis unfolding e' .
  next
    case False
    let ?s1 = "fst (run_func pure k s)"
    from False have e: "run_funcs pure (k # ks) (s, False)
        = run_funcs pure ks (?s1, snd (run_func pure k s))"
      by (simp add: run_funcs_Cons)
    from Cons.prems(2) have q: "run_funcs pure ks (?s1, snd (run_func pure k s)) = (s', False)"
      unfolding e .
    have nc: "\<not> snd (run_func pure k s)"
    proof
      assume "snd (run_func pure k s)"
      then have "snd (run_funcs pure ks (?s1, snd (run_func pure k s)))"
        by (rule run_funcs_flag)
      then show False unfolding q by simp
    qed
    then have f: "snd (run_func pure k s) = False" by simp
    from q have r': "run_funcs pure ks (?s1, False) = (s', False)" unfolding f .
    have m1: "m_mod ?s1 = m_mod s" using run_func_unchanged(1) [OF k nc] by simp
    have "\<forall>k\<in>set ks. k < length (get_functions (m_mod ?s1))" using r by (simp only: m1)
    from Cons.IH [OF this r'] have ih: "run_funcs pure ks (s', False) = (s', False)" .
    have c: "run_func pure k s' = run_func pure k s" using same by (rule run_func_cong)
    from False same have "run_funcs pure (k # ks) (s', False)
        = run_funcs pure ks (?s1, snd (run_func pure k s))"
      by (simp add: run_funcs_Cons c)
    then show ?thesis unfolding q .
  qed
qed

lemma run_loop_changed:
  "snd (run_pass pure s) \<Longrightarrow> run_loop pure s = run_loop pure (fst (run_pass pure s))"
  by (cases "run_pass pure s") (simp add: run_loop.simps [of pure s])

lemma run_loop_done:
  "\<not> snd (run_pass pure s) \<Longrightarrow> run_loop pure s = fst (run_pass pure s)"
  by (cases "run_pass pure s") (simp add: run_loop.simps [of pure s])

lemma run_loop_fixpoint: "\<exists>s0. run_pass pure s0 = (run_loop pure s, False)"
proof (induction pure s rule: run_loop.induct)
  case (1 pure s)
  show ?case
  proof (cases "snd (run_pass pure s)")
    case True
    have "(fst (run_pass pure s), snd (run_pass pure s)) = run_pass pure s" by simp
    from 1 [OF this True] obtain s0
      where "run_pass pure s0 = (run_loop pure (fst (run_pass pure s)), False)" by blast
    then have "run_pass pure s0 = (run_loop pure s, False)"
      by (simp only: run_loop_changed [OF True])
    then show ?thesis by blast
  next
    case False
    then have "run_pass pure s = (run_loop pure s, False)"
      by (simp only: run_loop_done [OF False]) (simp add: prod_eq_iff)
    then show ?thesis by blast
  qed
qed

lemma run_pass_stable:
  assumes "run_pass pure s0 = (s', False)"
  shows "run_pass pure s' = (s', False)" and "m_mod s' = m_mod s0"
    and "\<forall>k<length (get_functions (m_mod s')).
           \<not> is_declaration (get_functions (m_mod s') ! k) \<longrightarrow> dead_after_mark pure (m_mod s') k = []"
proof -
  let ?ks = "[0..<length (get_functions (m_mod s0))]"
  have r: "\<forall>k\<in>set ?ks. k < length (get_functions (m_mod s0))" by simp
  from assms have f: "run_funcs pure ?ks (s0, False) = (s', False)" by (simp add: run_pass_def)
  then have n: "\<not> snd (run_funcs pure ?ks (s0, False))" by simp
  from run_funcs_unchanged [OF r n] f
  show m: "m_mod s' = m_mod s0" by simp
  from run_funcs_stable [OF r f] m show "run_pass pure s' = (s', False)"
    by (simp add: run_pass_def)
  from run_funcs_unchanged [OF r n] m
  show "\<forall>k<length (get_functions (m_mod s')).
           \<not> is_declaration (get_functions (m_mod s') ! k) \<longrightarrow> dead_after_mark pure (m_mod s') k = []"
    by simp
qed

lemma run_loop_stable: "run_loop pure (run_loop pure s) = run_loop pure s"
proof -
  obtain s0 where "run_pass pure s0 = (run_loop pure s, False)"
    using run_loop_fixpoint by blast
  then have "run_pass pure (run_loop pure s) = (run_loop pure s, False)"
    by (rule run_pass_stable(1))
  then have "\<not> snd (run_pass pure (run_loop pure s))"
    and "fst (run_pass pure (run_loop pure s)) = run_loop pure s" by simp_all
  then show ?thesis using run_loop_done [of pure "run_loop pure s"] by simp
qed

subsection \<open>The counter\<close>

lemma num_instrs_sum: "num_instrs m = sum_list (map (\<lambda>f. length (func_instrs f)) (get_functions m))"
  by (simp add: num_instrs_def module_instrs_def length_concat comp_def)

lemma num_instrs_set_function:
  "k < length (get_functions m) \<Longrightarrow>
   num_instrs (set_function k f m) + length (func_instrs (get_functions m ! k))
     = num_instrs m + length (func_instrs f)"
  using sum_list_map_update [of k "get_functions m" "\<lambda>f. length (func_instrs f)" f]
  by (simp add: num_instrs_sum set_function_def)

lemma sweep_count:
  assumes "k < length (get_functions (m_mod s))"
  shows "ins_count (fst (sweep k s)) + num_instrs (m_mod (fst (sweep k s)))
       = ins_count s + num_instrs (m_mod s)"
proof -
  let ?f = "get_functions (m_mod s) ! k"
  let ?f' = "?f\<lparr>basic_blocks := map (sweep_block (marked s)) (basic_blocks ?f)\<rparr>"
  have "length (func_instrs ?f') + length (collect_wait_del (marked s) (basic_blocks ?f))
      = length (func_instrs ?f)"
    using length_instrs_sweep_blocks [of "marked s" "basic_blocks ?f"]
    by (simp add: func_instrs_def)
  with num_instrs_set_function [OF assms, of ?f'] show ?thesis
    by (simp add: sweep_eq)
qed

lemma clear_basic_blocks_count:
  assumes "k < length (get_functions (m_mod s))"
  shows "ins_count (fst (clear_basic_blocks k s)) = ins_count s"
    and "num_instrs (m_mod (fst (clear_basic_blocks k s))) = num_instrs (m_mod s)"
proof -
  let ?f = "get_functions (m_mod s) ! k"
  let ?f' = "?f\<lparr>basic_blocks := filter (\<lambda>bb. \<not> prunable ?f bb) (basic_blocks ?f)\<rparr>"
  show "ins_count (fst (clear_basic_blocks k s)) = ins_count s"
    by (simp add: clear_basic_blocks_eq)
  have "length (func_instrs ?f') = length (func_instrs ?f)"
    by (simp add: func_instrs_def concat_filter_nonprunable)
  with num_instrs_set_function [OF assms, of ?f']
  show "num_instrs (m_mod (fst (clear_basic_blocks k s))) = num_instrs (m_mod s)"
    by (simp add: clear_basic_blocks_eq)
qed

lemma run_func_count:
  assumes "k < length (get_functions (m_mod s))"
  shows "ins_count (fst (run_func pure k s)) + num_instrs (m_mod (fst (run_func pure k s)))
       = ins_count s + num_instrs (m_mod s)"
proof -
  let ?s1 = "mark pure k s"
  let ?s2 = "fst (sweep k ?s1)"
  have k1: "k < length (get_functions (m_mod ?s1))" using assms by simp
  then have k2: "k < length (get_functions (m_mod ?s2))" by simp
  from sweep_count [OF k1] clear_basic_blocks_count [OF k2] show ?thesis
    by (simp add: run_func_eq)
qed

lemma run_funcs_count:
  "\<forall>k\<in>set ks. k < length (get_functions (m_mod s)) \<Longrightarrow>
   ins_count (fst (run_funcs pure ks (s, c))) + num_instrs (m_mod (fst (run_funcs pure ks (s, c))))
     = ins_count s + num_instrs (m_mod s)"
proof (induction ks arbitrary: s c)
  case Nil
  then show ?case by simp
next
  case (Cons k ks)
  from Cons.prems have k: "k < length (get_functions (m_mod s))"
    and r: "\<forall>k\<in>set ks. k < length (get_functions (m_mod s))" by simp_all
  show ?case
  proof (cases "is_declaration (get_functions (m_mod s) ! k)")
    case True
    then have e: "run_funcs pure (k # ks) (s, c) = run_funcs pure ks (s, c)"
      by (simp add: run_funcs_Cons)
    show ?thesis unfolding e using r by (rule Cons.IH)
  next
    case False
    let ?s' = "fst (run_func pure k s)"
    let ?c' = "c \<or> snd (run_func pure k s)"
    from False have e: "run_funcs pure (k # ks) (s, c) = run_funcs pure ks (?s', ?c')"
      by (simp add: run_funcs_Cons)
    have "\<forall>k\<in>set ks. k < length (get_functions (m_mod ?s'))"
      using r run_func_size(1) [OF k, of pure] by simp
    from Cons.IH [OF this, of ?c'] run_func_count [OF k, of pure]
    show ?thesis unfolding e by simp
  qed
qed

lemma run_pass_count:
  "ins_count (fst (run_pass pure s)) + num_instrs (m_mod (fst (run_pass pure s)))
     = ins_count s + num_instrs (m_mod s)"
  unfolding run_pass_def by (rule run_funcs_count) simp

lemma run_loop_count:
  "ins_count (run_loop pure s) + num_instrs (m_mod (run_loop pure s))
     = ins_count s + num_instrs (m_mod s)"
proof (induction pure s rule: run_loop.induct)
  case (1 pure s)
  show ?case
  proof (cases "snd (run_pass pure s)")
    case True
    have "(fst (run_pass pure s), snd (run_pass pure s)) = run_pass pure s" by simp
    from 1 [OF this True] run_pass_count [of pure s] show ?thesis
      unfolding run_loop_changed [OF True] by simp
  next
    case False
    from run_pass_count [of pure s] show ?thesis
      unfolding run_loop_done [OF False] .
  qed
qed

lemma terminator_critical: "isTerminator ins \<Longrightarrow> is_critical pure m ins"
  by (auto simp: isTerminator_def is_critical_def)

lemma unswept_is_live:
  assumes "dead_after_mark pure m k = []"
    and "bb \<in> set (basic_blocks (get_functions m ! k))" "is_terminated bb"
    and "ins \<in> set (instr_list bb)"
  shows "is_critical pure m ins \<or> reachable_from_critical pure m (get_functions m ! k) ins"
proof (cases "isTerminator ins")
  case True
  then show ?thesis by (simp add: terminator_critical)
next
  case False
  let ?seeds = "critical_seeds pure m (get_functions m ! k)"
  let ?mk = "mark_loop m ?seeds {}"
  from assms(1,2) have "wait_del_of ?mk bb = []"
    by (simp add: dead_after_mark_def collect_wait_del_empty)
  moreover from assms(3) have "instr_list bb \<noteq> []" by (rule is_terminated_nonempty)
  ultimately have "filter (\<lambda>ins. \<not> isTerminator ins \<and> iid ins \<notin> ?mk) (instr_list bb) = []"
    using assms(3) by (simp add: wait_del_of_def)
  with assms(4) False have "iid ins \<in> ?mk"
    by (auto simp: filter_empty_conv)
  moreover have "wl_closed m ?seeds {}" by (simp add: wl_closed_def)
  then have "?mk = (operand_edge m)\<^sup>* `` set ?seeds" by (simp add: mark_loop_reach)
  ultimately have "reachable_from_critical pure m (get_functions m ! k) ins"
    by (auto simp: reachable_from_critical_def critical_seeds_def)
  then show ?thesis ..
qed

section \<open>The worked modules, evaluated\<close>

text \<open>
  \<^verbatim>\<open>run\<close> on the first module takes three rounds. The first erases the outer unused
  computation, the unused call of the pure function and the call through a parameter, and
  deletes the empty block; the inner computation still has a user when it is classified,
  and goes in the second round; the third round changes nothing.
\<close>

lemma ex_run: "run ex_func_info ex_pass =
    \<lparr>m_mod = ex_module_after, ins_count = 4, marked = {2, 3, 4}, work_list = []\<rparr>"
  by code_simp

lemma ex_first_pass: "fst (run_pass (ex_func_info ex_module) ex_pass) =
    \<lparr>m_mod = \<lparr>get_functions = [ex_output, ex_pure_helper,
         \<lparr>fname = ''main'', is_declaration = False, entry_block = 0,
          basic_blocks =
           [\<lparr>bid = 0, instr_list = [ex_dead_inner, ex_add, ex_call_output, ex_ret],
             pre_bbs = []\<rparr>,
            \<lparr>bid = 2, instr_list = [ex_mul], pre_bbs = []\<rparr>]\<rparr>],
       get_global_variable = []\<rparr>,
     ins_count = 3, marked = {2, 3, 4, 7}, work_list = []\<rparr>"
  by code_simp

text \<open>
  One call of \<^verbatim>\<open>sweep_globally\<close> on the third module removes \<^verbatim>\<open>a\<close> and the unused
  global, and keeps \<^verbatim>\<open>c\<close>, which \<^verbatim>\<open>a\<close> used; a second call removes \<^verbatim>\<open>c\<close>.
\<close>

lemma sweep_globally_chain:
  "map fname (get_functions (m_mod (sweep_globally ex_chain_pass))) = [''main'', ''c'']
   \<and> map gname (get_global_variable (m_mod (sweep_globally ex_chain_pass))) = [''used'']
   \<and> map fname (get_functions (m_mod (sweep_globally (sweep_globally ex_chain_pass))))
       = [''main'']"
  by code_simp

text \<open>A pass object that has counted five erased instructions before counts on from five.\<close>

lemma run_counts_on:
  "ins_count (run ex_func_info (ex_pass\<lparr>ins_count := 5\<rparr>)) = 9"
  by code_simp

text \<open>From an instruction without instruction operands, only the instruction itself is reached.\<close>

lemma no_operands_reach:
  assumes "instr_operands m i = []" "(i, j) \<in> (operand_edge m)\<^sup>*"
  shows "j = i"
  using assms(2)
proof (cases rule: converse_rtranclE)
  case base
  then show ?thesis by simp
next
  case (step y)
  then have "y \<in> set (instr_operands m i)" by (simp add: set_instr_operands)
  with assms(1) show ?thesis by simp
qed

text \<open>The purity analysis of the example answers the same before and after the run.\<close>

lemma ex_func_info_stable:
  "ex_func_info (m_mod (run ex_func_info ex_pass)) = ex_func_info (m_mod ex_pass)"
proof
  fix n
  have a: "find (\<lambda>f. fname f = n) (get_functions ex_module_after)
      = (if n = ''output'' then Some ex_output
         else if n = ''pure_helper'' then Some ex_pure_helper
         else if n = ''main'' then Some ex_main_after else None)"
    by (simp add: ex_module_after_def ex_output_def ex_pure_helper_def ex_main_after_def)
  have b: "find (\<lambda>f. fname f = n) (get_functions ex_module)
      = (if n = ''output'' then Some ex_output
         else if n = ''pure_helper'' then Some ex_pure_helper
         else if n = ''main'' then Some ex_main else None)"
    by (simp add: ex_module_def ex_output_def ex_pure_helper_def ex_main_def)
  have c: "fname ex_main = ''main''" "fname ex_main_after = ''main''"
    by (simp_all add: ex_main_def ex_main_after_def)
  have m: "m_mod (run ex_func_info ex_pass) = ex_module_after" by (simp add: ex_run)
  have m0: "m_mod ex_pass = ex_module" by (simp add: ex_pass_def)
  show "ex_func_info (m_mod (run ex_func_info ex_pass)) n = ex_func_info (m_mod ex_pass) n"
    unfolding m m0 ex_func_info_def a b by (simp add: c)
qed

section \<open>The claims\<close>

text \<open>
  Claim C1, amended. After \<^verbatim>\<open>run\<close>, in every function of the module that is not a
  declaration, every instruction of a block that ends with a terminator is critical or is
  reachable through operand edges from a critical instruction of the function. The
  critical-instruction predicate is evaluated on the module \<^verbatim>\<open>run\<close> leaves, with the
  purity answers that run used: those \<^verbatim>\<open>func_info->run()\<close> computed for the module as
  it stood when the run started.
\<close>

theorem run_soundness:
  assumes "k < length (get_functions (m_mod (run func_info s)))"
    and "\<not> is_declaration (get_functions (m_mod (run func_info s)) ! k)"
    and "bb \<in> set (basic_blocks (get_functions (m_mod (run func_info s)) ! k))"
    and "is_terminated bb"
    and "ins \<in> set (instr_list bb)"
  shows "is_critical (func_info (m_mod s)) (m_mod (run func_info s)) ins
     \<or> reachable_from_critical (func_info (m_mod s)) (m_mod (run func_info s))
          (get_functions (m_mod (run func_info s)) ! k) ins"
proof -
  let ?pure = "func_info (m_mod s)"
  let ?s' = "run_loop ?pure s"
  obtain s0 where "run_pass ?pure s0 = (?s', False)" using run_loop_fixpoint by blast
  from run_pass_stable(3) [OF this] assms(1,2)
  have "dead_after_mark ?pure (m_mod ?s') k = []" by (simp add: run_def)
  from unswept_is_live [OF this] assms(3,4,5) show ?thesis by (simp add: run_def)
qed

text \<open>The theorem of claim C1 at the worked module.\<close>

theorem run_soundness_witness:
  "2 < length (get_functions (m_mod (run ex_func_info ex_pass)))
   \<and> \<not> is_declaration (get_functions (m_mod (run ex_func_info ex_pass)) ! 2)
   \<and> ex_entry_after \<in> set (basic_blocks (get_functions (m_mod (run ex_func_info ex_pass)) ! 2))
   \<and> is_terminated ex_entry_after
   \<and> ex_add \<in> set (instr_list ex_entry_after)
   \<and> (is_critical (ex_func_info (m_mod ex_pass)) (m_mod (run ex_func_info ex_pass)) ex_add
      \<or> reachable_from_critical (ex_func_info (m_mod ex_pass))
           (m_mod (run ex_func_info ex_pass))
           (get_functions (m_mod (run ex_func_info ex_pass)) ! 2) ex_add)"
proof -
  have h1: "2 < length (get_functions (m_mod (run ex_func_info ex_pass)))" by code_simp
  have h2: "\<not> is_declaration (get_functions (m_mod (run ex_func_info ex_pass)) ! 2)"
    by code_simp
  have h3: "ex_entry_after
      \<in> set (basic_blocks (get_functions (m_mod (run ex_func_info ex_pass)) ! 2))"
    by code_simp
  have h4: "is_terminated ex_entry_after" by code_simp
  have h5: "ex_add \<in> set (instr_list ex_entry_after)" by code_simp
  from run_soundness [OF h1 h2 h3 h4 h5] h1 h2 h3 h4 h5 show ?thesis by simp
qed

text \<open>
  Claim C1 as stated fails: in the worked module, the multiplication in the block without
  terminator is still in \<^verbatim>\<open>main\<close> after \<^verbatim>\<open>run\<close>; it is not critical, nothing uses
  it, and no critical instruction of \<^verbatim>\<open>main\<close> reaches it.
\<close>

theorem run_soundness_counterexample:
  "\<not> is_declaration (get_functions (m_mod (run ex_func_info ex_pass)) ! 2)
   \<and> ex_mul \<in> set (func_instrs (get_functions (m_mod (run ex_func_info ex_pass)) ! 2))
   \<and> \<not> is_critical (ex_func_info (m_mod ex_pass)) (m_mod (run ex_func_info ex_pass)) ex_mul
   \<and> get_use_list (m_mod (run ex_func_info ex_pass)) (VInstr (iid ex_mul)) = []
   \<and> \<not> reachable_from_critical (ex_func_info (m_mod ex_pass))
          (m_mod (run ex_func_info ex_pass))
          (get_functions (m_mod (run ex_func_info ex_pass)) ! 2) ex_mul"
proof -
  let ?pure = "ex_func_info (m_mod ex_pass)"
  have m: "m_mod (run ex_func_info ex_pass) = ex_module_after"
    by (simp add: ex_run)
  have f: "get_functions ex_module_after ! 2 = ex_main_after"
    by (simp add: ex_module_after_def)
  have 1: "\<not> is_declaration ex_main_after" by code_simp
  have 2: "ex_mul \<in> set (func_instrs ex_main_after)" by code_simp
  have 3: "\<not> is_critical ?pure ex_module_after ex_mul" by code_simp
  have i: "func_instrs ex_main_after = [ex_add, ex_call_output, ex_ret]  @ [ex_mul]"
    by code_simp
  have o: "instr_operands ex_module_after (iid ex_add) = []"
    "instr_operands ex_module_after (iid ex_ret) = []"
    "instr_operands ex_module_after (iid ex_call_output) = [iid ex_add]"
    by code_simp+
  have ids: "iid ex_add \<noteq> iid ex_mul" "iid ex_ret \<noteq> iid ex_mul" "iid ex_call_output \<noteq> iid ex_mul"
    by code_simp+
  have a: "(iid ex_add, iid ex_mul) \<notin> (operand_edge ex_module_after)\<^sup>*"
  proof
    assume "(iid ex_add, iid ex_mul) \<in> (operand_edge ex_module_after)\<^sup>*"
    from no_operands_reach [OF o(1) this] ids(1) show False by simp
  qed
  have r: "(iid ex_ret, iid ex_mul) \<notin> (operand_edge ex_module_after)\<^sup>*"
  proof
    assume "(iid ex_ret, iid ex_mul) \<in> (operand_edge ex_module_after)\<^sup>*"
    from no_operands_reach [OF o(2) this] ids(2) show False by simp
  qed
  have c: "(iid ex_call_output, iid ex_mul) \<notin> (operand_edge ex_module_after)\<^sup>*"
  proof
    assume "(iid ex_call_output, iid ex_mul) \<in> (operand_edge ex_module_after)\<^sup>*"
    then show False
    proof (cases rule: converse_rtranclE)
      case base
      with ids(3) show ?thesis by simp
    next
      case (step y)
      then have "y \<in> set (instr_operands ex_module_after (iid ex_call_output))"
        by (simp add: set_instr_operands)
      then have "y = iid ex_add" unfolding o(3) by simp
      with step(2) a show ?thesis by simp
    qed
  qed
  have 4: "\<not> reachable_from_critical ?pure ex_module_after ex_main_after ex_mul"
    unfolding reachable_from_critical_def i using a r c 3 by simp
  have 5: "get_use_list ex_module_after (VInstr (iid ex_mul)) = []" by code_simp
  from 1 2 3 4 5 show ?thesis unfolding m f by simp
qed

text \<open>
  Claim C2. For the function at any position of the module, \<^verbatim>\<open>mark(Function *)\<close>
  leaves in \<^verbatim>\<open>marked\<close> exactly the addresses reachable, through the operand relation on
  instructions, from a critical instruction of the function (a critical instruction is
  reachable from itself). Operands that are not instructions give no edge of
  \<open>operand_edge\<close>, so they take no part.
\<close>

theorem mark_computes_live_set:
  "marked (mark pure k s) =
     {j. \<exists>c\<in>set (func_instrs (get_functions (m_mod s) ! k)).
            is_critical pure (m_mod s) c \<and> (iid c, j) \<in> (operand_edge (m_mod s))\<^sup>*}"
proof -
  let ?seeds = "critical_seeds pure (m_mod s) (get_functions (m_mod s) ! k)"
  have "wl_closed (m_mod s) ?seeds {}" by (simp add: wl_closed_def)
  then have "mark_loop (m_mod s) ?seeds {} = (operand_edge (m_mod s))\<^sup>* `` set ?seeds"
    by (simp add: mark_loop_reach)
  then show ?thesis
    by (auto simp: mark_def Let_def critical_seeds_def)
qed

text \<open>
  Claim C3. For a block of a function of the module that ends with a terminator before
  \<^verbatim>\<open>sweep\<close>, whatever the marked set: after \<^verbatim>\<open>sweep\<close> the block at the same position
  holds the same terminator instructions as before, in the same order, it still ends with a
  terminator, and its last instruction is the one it had before.
\<close>

theorem sweep_keeps_terminators:
  assumes "k < length (get_functions (m_mod s))"
    and "j < length (basic_blocks (get_functions (m_mod s) ! k))"
    and "is_terminated (basic_blocks (get_functions (m_mod s) ! k) ! j)"
  shows "filter isTerminator
           (instr_list (basic_blocks (get_functions (m_mod (fst (sweep k s))) ! k) ! j))
         = filter isTerminator (instr_list (basic_blocks (get_functions (m_mod s) ! k) ! j))
     \<and> is_terminated (basic_blocks (get_functions (m_mod (fst (sweep k s))) ! k) ! j)
     \<and> last (instr_list (basic_blocks (get_functions (m_mod (fst (sweep k s))) ! k) ! j))
         = last (instr_list (basic_blocks (get_functions (m_mod s) ! k) ! j))"
proof -
  let ?bb = "basic_blocks (get_functions (m_mod s) ! k) ! j"
  let ?keep = "\<lambda>ins. isTerminator ins \<or> iid ins \<in> marked s"
  have bb': "basic_blocks (get_functions (m_mod (fst (sweep k s))) ! k) ! j
      = sweep_block (marked s) ?bb"
    using assms(1,2) by (simp add: basic_blocks_sweep)
  have il: "instr_list (sweep_block (marked s) ?bb) = filter ?keep (instr_list ?bb)"
    using assms(3) by (simp add: instr_list_sweep_block)
  from assms(3) have ne: "instr_list ?bb \<noteq> []" and lt: "isTerminator (last (instr_list ?bb))"
    by (auto simp: is_terminated_def)
  have 1: "filter isTerminator (filter ?keep (instr_list ?bb)) = filter isTerminator (instr_list ?bb)"
    by (simp add: filter_filter conj_disj_distribL cong: conj_cong) (metis)
  have 2: "last (filter ?keep (instr_list ?bb)) = last (instr_list ?bb)"
    using ne lt by (simp add: last_filter_keep)
  have 3: "filter ?keep (instr_list ?bb) \<noteq> []"
    using ne lt by (intro filter_nonempty_last) auto
  have 4: "is_terminated (sweep_block (marked s) ?bb)"
    using 2 3 lt by (simp add: is_terminated_def il)
  show ?thesis unfolding bb' using 1 2 4 by (simp add: il)
qed

text \<open>The theorem of claim C3 at the worked module.\<close>

theorem sweep_keeps_terminators_witness:
  "2 < length (get_functions (m_mod ex_pass))
   \<and> 0 < length (basic_blocks (get_functions (m_mod ex_pass) ! 2))
   \<and> is_terminated (basic_blocks (get_functions (m_mod ex_pass) ! 2) ! 0)
   \<and> filter isTerminator
           (instr_list (basic_blocks (get_functions (m_mod (fst (sweep 2 ex_pass))) ! 2) ! 0))
         = filter isTerminator (instr_list (basic_blocks (get_functions (m_mod ex_pass) ! 2) ! 0))
   \<and> is_terminated (basic_blocks (get_functions (m_mod (fst (sweep 2 ex_pass))) ! 2) ! 0)
   \<and> last (instr_list (basic_blocks (get_functions (m_mod (fst (sweep 2 ex_pass))) ! 2) ! 0))
         = last (instr_list (basic_blocks (get_functions (m_mod ex_pass) ! 2) ! 0))"
proof -
  have h1: "2 < length (get_functions (m_mod ex_pass))" by code_simp
  have h2: "0 < length (basic_blocks (get_functions (m_mod ex_pass) ! 2))" by code_simp
  have h3: "is_terminated (basic_blocks (get_functions (m_mod ex_pass) ! 2) ! 0)" by code_simp
  from sweep_keeps_terminators [OF h1 h2 h3] h1 h2 h3 show ?thesis by simp
qed

text \<open>
  Claim C4, amended. For a call instruction, \<^verbatim>\<open>is_critical\<close> returns true when the callee
  operand is a function that is a declaration or that the purity analysis does not report
  pure, whatever the use-list of the call; when the callee operand is not a function, the
  call is critical iff its own use-list is not empty.
\<close>

theorem call_critical_eq:
  "is_call ins \<Longrightarrow>
   is_critical pure m ins =
     (case called_function m ins of
        Some f \<Rightarrow> is_declaration f \<or> \<not> pure (fname f)
                    \<or> get_use_list m (VInstr (iid ins)) \<noteq> []
      | None \<Rightarrow> get_use_list m (VInstr (iid ins)) \<noteq> [])"
  by (auto simp: is_critical_def is_call_def is_ret_def is_br_def is_store_def
      split: option.splits)

text \<open>The theorem of claim C4 at the worked module.\<close>

theorem call_critical_eq_witness:
  "is_call ex_call_output
   \<and> is_critical (ex_func_info ex_module) ex_module ex_call_output =
     (case called_function ex_module ex_call_output of
        Some f \<Rightarrow> is_declaration f \<or> \<not> ex_func_info ex_module (fname f)
                    \<or> get_use_list ex_module (VInstr (iid ex_call_output)) \<noteq> []
      | None \<Rightarrow> get_use_list ex_module (VInstr (iid ex_call_output)) \<noteq> [])"
proof -
  have h: "is_call ex_call_output" by code_simp
  from call_critical_eq [OF h, of "ex_func_info ex_module" ex_module] h show ?thesis by simp
qed

text \<open>
  Claim C4 as stated fails: the call through a parameter in the worked module has no
  function as callee operand and an empty use-list, and \<^verbatim>\<open>is_critical\<close> returns false.
\<close>

theorem call_critical_counterexample:
  "is_call ex_call_unresolved
   \<and> called_function ex_module ex_call_unresolved = None
   \<and> \<not> is_critical (ex_func_info ex_module) ex_module ex_call_unresolved"
  by code_simp

text \<open>
  Claim C5. One call of \<^verbatim>\<open>sweep_globally\<close> removes exactly the functions whose
  use-list is empty at the time of the call and whose name is not \<^verbatim>\<open>main\<close>, and exactly
  the globals whose use-list is empty at that time; the rest stays, in order. So
  \<^verbatim>\<open>main\<close> always stays, and a function still used when the call starts stays, also
  when all its users are in functions this call removes.
\<close>

theorem sweep_globally_removes:
  "get_functions (m_mod (sweep_globally s)) =
     filter (\<lambda>f. \<not> (get_use_list (m_mod s) (VFunction (fname f)) = [] \<and> fname f \<noteq> ''main''))
       (get_functions (m_mod s))
   \<and> get_global_variable (m_mod (sweep_globally s)) =
     filter (\<lambda>g. get_use_list (m_mod s) (VGlobal (gname g)) \<noteq> [])
       (get_global_variable (m_mod s))"
  by (simp add: sweep_globally_def Let_def fold_remove1_filter)

text \<open>
  Claim C6. For a function of the module, \<^verbatim>\<open>clear_basic_blocks\<close> keeps exactly the blocks
  that have a predecessor, or are the entry block, or hold an instruction, so it deletes a
  block iff the block has no predecessor, is not the entry block and is empty; and it returns
  true iff the function has fewer blocks afterwards.
\<close>

theorem clear_basic_blocks_deletes:
  assumes "k < length (get_functions (m_mod s))"
  shows "basic_blocks (get_functions (m_mod (fst (clear_basic_blocks k s))) ! k) =
       filter (\<lambda>bb. \<not> (pre_bbs bb = [] \<and> bid bb \<noteq> entry_block (get_functions (m_mod s) ! k)
                          \<and> instr_list bb = []))
         (basic_blocks (get_functions (m_mod s) ! k))
     \<and> snd (clear_basic_blocks k s) =
         (length (basic_blocks (get_functions (m_mod (fst (clear_basic_blocks k s))) ! k))
            < length (basic_blocks (get_functions (m_mod s) ! k)))"
proof -
  let ?f = "get_functions (m_mod s) ! k"
  have a: "basic_blocks (get_functions (m_mod (fst (clear_basic_blocks k s))) ! k) =
      filter (\<lambda>bb. \<not> prunable ?f bb) (basic_blocks ?f)"
    using assms by (simp add: clear_basic_blocks_eq set_function_def)
  have b: "length (filter (\<lambda>bb. \<not> prunable ?f bb) (basic_blocks ?f))
         + length (filter (prunable ?f) (basic_blocks ?f)) = length (basic_blocks ?f)"
    using sum_length_filter_compl [of "prunable ?f" "basic_blocks ?f"] by simp
  have c: "snd (clear_basic_blocks k s) =
      (length (filter (\<lambda>bb. \<not> prunable ?f bb) (basic_blocks ?f)) < length (basic_blocks ?f))"
    unfolding snd_clear_basic_blocks using b by linarith
  show ?thesis unfolding a c by (simp add: prunable_def)
qed

text \<open>The theorem of claim C6 at the worked module.\<close>

theorem clear_basic_blocks_deletes_witness:
  "2 < length (get_functions (m_mod ex_pass))
   \<and> basic_blocks (get_functions (m_mod (fst (clear_basic_blocks 2 ex_pass))) ! 2) =
       filter (\<lambda>bb. \<not> (pre_bbs bb = [] \<and> bid bb \<noteq> entry_block (get_functions (m_mod ex_pass) ! 2)
                          \<and> instr_list bb = []))
         (basic_blocks (get_functions (m_mod ex_pass) ! 2))
   \<and> snd (clear_basic_blocks 2 ex_pass) =
         (length (basic_blocks (get_functions (m_mod (fst (clear_basic_blocks 2 ex_pass))) ! 2))
            < length (basic_blocks (get_functions (m_mod ex_pass) ! 2)))"
proof -
  have h: "2 < length (get_functions (m_mod ex_pass))" by code_simp
  from clear_basic_blocks_deletes [OF h] h show ?thesis by simp
qed

text \<open>
  Claim C7, amended. When the purity analysis gives the same answers on the transformed
  module as on the original one, running \<^verbatim>\<open>run\<close> a second time returns the pass object unchanged:
  the same module (no instruction erased, no block deleted) and the same counter.
\<close>

theorem run_idempotent:
  assumes "func_info (m_mod (run func_info s)) = func_info (m_mod s)"
  shows "run func_info (run func_info s) = run func_info s"
  using assms by (simp add: run_def run_loop_stable)

text \<open>The theorem of claim C7 at the worked module.\<close>

theorem run_idempotent_witness:
  "ex_func_info (m_mod (run ex_func_info ex_pass)) = ex_func_info (m_mod ex_pass)
   \<and> run ex_func_info (run ex_func_info ex_pass) = run ex_func_info ex_pass"
  using run_idempotent [OF ex_func_info_stable] ex_func_info_stable by simp

text \<open>
  Claim C7 as stated fails for the purity analysis of the worked modules: the first run
  erases the unused load of \<^verbatim>\<open>helper\<close> and keeps the call of \<^verbatim>\<open>helper\<close>, which the
  analysis did not report pure; the second run analyses the module again, finds
  \<^verbatim>\<open>helper\<close> pure, and erases the call.
\<close>

theorem run_idempotent_counterexample:
  "ins_count (run ex_func_info ex_load_pass) = 1
   \<and> ins_count (run ex_func_info (run ex_func_info ex_load_pass)) = 2
   \<and> run ex_func_info (run ex_func_info ex_load_pass) \<noteq> run ex_func_info ex_load_pass"
  by code_simp

text \<open>
  Claim C8. A non-empty block without terminator, in a function of the module, is the same
  block after \<^verbatim>\<open>sweep\<close> (same position, same instructions with the same operands), and
  \<^verbatim>\<open>clear_basic_blocks\<close> keeps it as it is among the blocks of the function.
\<close>

theorem unterminated_block_untouched:
  assumes "k < length (get_functions (m_mod s))"
    and "j < length (basic_blocks (get_functions (m_mod s) ! k))"
    and "instr_list (basic_blocks (get_functions (m_mod s) ! k) ! j) \<noteq> []"
    and "\<not> is_terminated (basic_blocks (get_functions (m_mod s) ! k) ! j)"
  shows "basic_blocks (get_functions (m_mod (fst (sweep k s))) ! k) ! j
           = basic_blocks (get_functions (m_mod s) ! k) ! j
     \<and> length (basic_blocks (get_functions (m_mod (fst (sweep k s))) ! k))
           = length (basic_blocks (get_functions (m_mod s) ! k))
     \<and> basic_blocks (get_functions (m_mod s) ! k) ! j
           \<in> set (basic_blocks (get_functions (m_mod (fst (clear_basic_blocks k s))) ! k))"
proof -
  let ?f = "get_functions (m_mod s) ! k"
  let ?bb = "basic_blocks ?f ! j"
  have "sweep_block (marked s) ?bb = ?bb"
    using assms(4) by (simp add: sweep_block_def wait_del_of_def)
  then have 1: "basic_blocks (get_functions (m_mod (fst (sweep k s))) ! k) ! j = ?bb"
    using assms(1,2) by (simp add: basic_blocks_sweep)
  have 2: "length (basic_blocks (get_functions (m_mod (fst (sweep k s))) ! k))
      = length (basic_blocks ?f)"
    using assms(1) by (simp add: basic_blocks_sweep)
  have "\<not> prunable ?f ?bb" using assms(3) by (simp add: prunable_def)
  moreover have "?bb \<in> set (basic_blocks ?f)" using assms(2) by simp
  ultimately have 3: "?bb \<in> set (basic_blocks (get_functions (m_mod (fst (clear_basic_blocks k s))) ! k))"
    using assms(1) by (simp add: clear_basic_blocks_eq set_function_def)
  from 1 2 3 show ?thesis by simp
qed

text \<open>The theorem of claim C8 at the worked module.\<close>

theorem unterminated_block_untouched_witness:
  "2 < length (get_functions (m_mod ex_pass))
   \<and> 2 < length (basic_blocks (get_functions (m_mod ex_pass) ! 2))
   \<and> instr_list (basic_blocks (get_functions (m_mod ex_pass) ! 2) ! 2) \<noteq> []
   \<and> \<not> is_terminated (basic_blocks (get_functions (m_mod ex_pass) ! 2) ! 2)
   \<and> basic_blocks (get_functions (m_mod (fst (sweep 2 ex_pass))) ! 2) ! 2
           = basic_blocks (get_functions (m_mod ex_pass) ! 2) ! 2
   \<and> length (basic_blocks (get_functions (m_mod (fst (sweep 2 ex_pass))) ! 2))
           = length (basic_blocks (get_functions (m_mod ex_pass) ! 2))
   \<and> basic_blocks (get_functions (m_mod ex_pass) ! 2) ! 2
           \<in> set (basic_blocks (get_functions (m_mod (fst (clear_basic_blocks 2 ex_pass))) ! 2))"
proof -
  have h1: "2 < length (get_functions (m_mod ex_pass))" by code_simp
  have h2: "2 < length (basic_blocks (get_functions (m_mod ex_pass) ! 2))" by code_simp
  have h3: "instr_list (basic_blocks (get_functions (m_mod ex_pass) ! 2) ! 2) \<noteq> []"
    by code_simp
  have h4: "\<not> is_terminated (basic_blocks (get_functions (m_mod ex_pass) ! 2) ! 2)"
    by code_simp
  from unterminated_block_untouched [OF h1 h2 h3 h4] h1 h2 h3 h4 show ?thesis by simp
qed

text \<open>
  Claim C9. For every module and every list of seeds, the worklist loop of
  \<^verbatim>\<open>mark(Function *)\<close> started on the seeds with nothing marked and the recursive
  \<^verbatim>\<open>mark(Instruction *)\<close> produce the same marked set: when the recursive function is
  applied to each seed in turn, starting with nothing marked, and also when it is applied
  to each seed on its own with nothing marked and the results are united.
\<close>

theorem mark_iterative_eq_recursive:
  "mark_loop m seeds {} = fold (mark_ins m) seeds {}
   \<and> mark_loop m seeds {} = (\<Union>i\<in>set seeds. mark_ins m i {})"
proof -
  have "wl_closed m seeds {}" by (simp add: wl_closed_def)
  then have l: "mark_loop m seeds {} = (operand_edge m)\<^sup>* `` set seeds"
    by (simp add: mark_loop_reach)
  have one: "mark_ins m i {} = (operand_edge m)\<^sup>* `` {i}" for i
    using fold_mark_ins_reach [of m "[i]"] by simp
  have "(\<Union>i\<in>set seeds. (operand_edge m)\<^sup>* `` {i}) = (operand_edge m)\<^sup>* `` set seeds"
    by (simp add: Image_def) fast
  then show ?thesis by (simp add: l fold_mark_ins_reach one)
qed

text \<open>
  Claim C10. \<^verbatim>\<open>run\<close> starts from the value \<^verbatim>\<open>ins_count\<close> has when it is called: the
  counter after the run is the counter before it plus the number of instructions the run
  erased from the module. The total reported therefore accumulates over the invocations of
  \<^verbatim>\<open>run\<close> on the same pass object.
\<close>

theorem run_accumulates_ins_count:
  "ins_count (run func_info s) + num_instrs (m_mod (run func_info s))
     = ins_count s + num_instrs (m_mod s)"
  unfolding run_def by (rule run_loop_count)

end
